theory Spec2Isabelle
  imports Main "HOL-Library.Word"
begin

section \<open>Machine types and faults\<close>

text \<open>
  The C sources use \<^verbatim>\<open>uint8_t\<close> and \<^verbatim>\<open>uint32_t\<close>. Arithmetic on the words wraps
  around, exactly as the stores into the struct fields do.
\<close>

type_synonym u8 = "8 word"
type_synonym u32 = "32 word"

text \<open>
  Two things in the sources have no defined result in C: an access outside the
  storage block handed in by the caller, and a remainder by zero. Both are
  branches of the model.
\<close>

datatype fault = OutOfBounds | DivByZero

abbreviation (input) FALSE :: u8 where "FALSE \<equiv> 0"
abbreviation (input) TRUE :: u8 where "TRUE \<equiv> 1"

text \<open>\<^verbatim>\<open>memcpy\<close> out of a block: \<open>n\<close> bytes starting at offset \<open>off\<close>.\<close>

definition mem_read :: "u8 list \<Rightarrow> nat \<Rightarrow> nat \<Rightarrow> fault + u8 list" where
  "mem_read mem off n =
     (if off + n \<le> length mem then Inr (take n (drop off mem)) else Inl OutOfBounds)"

text \<open>\<^verbatim>\<open>memcpy\<close> into a block: the bytes \<open>bs\<close> land at offset \<open>off\<close>.\<close>

definition mem_write :: "u8 list \<Rightarrow> nat \<Rightarrow> u8 list \<Rightarrow> fault + u8 list" where
  "mem_write mem off bs =
     (if off + length bs \<le> length mem
      then Inr (take off mem @ bs @ drop (off + length bs) mem)
      else Inl OutOfBounds)"

section \<open>Circular queue (queue.h, queue.c)\<close>

record QueueType =
  Buffer :: "u8 list"
  Elements :: u32
  Size :: u8
  Head :: u32
  Tail :: u32
  Empty :: u8
  Full :: u8

definition Queue_Init :: "QueueType \<Rightarrow> u8 list \<Rightarrow> u32 \<Rightarrow> u8 \<Rightarrow> QueueType" where
  "Queue_Init Queue Buf Elems Sz =
     Queue\<lparr>Buffer := Buf, Elements := Elems, Size := Sz,
           Empty := TRUE, Full := FALSE, Head := 0, Tail := 0\<rparr>"

text \<open>
  \<open>Queue_WriteData\<close>: the source pointer \<open>Data\<close> is a block of bytes of which the first
  \<open>Size\<close> are copied to byte offset \<open>Head * Size\<close> (a 32-bit product) of the buffer.
  The statements follow the order of the source: copy, clear \<open>Empty\<close>, increment
  \<open>Head\<close>, reduce it modulo \<open>Elements\<close>, compare with \<open>Tail\<close>.
\<close>

definition Queue_WriteData :: "QueueType \<Rightarrow> u8 list \<Rightarrow> fault + (u8 \<times> QueueType)" where
  "Queue_WriteData Queue Data =
     (if Full Queue = FALSE then
        (case mem_read Data 0 (unat (Size Queue)) of
           Inl f \<Rightarrow> Inl f
         | Inr src \<Rightarrow>
        (case mem_write (Buffer Queue) (unat (Head Queue * ucast (Size Queue))) src of
           Inl f \<Rightarrow> Inl f
         | Inr buf \<Rightarrow>
             if Elements Queue = 0 then Inl DivByZero
             else
               let h = (Head Queue + 1) mod Elements Queue;
                   q1 = Queue\<lparr>Buffer := buf, Empty := FALSE, Head := h\<rparr>;
                   q2 = (if h = Tail q1 then q1\<lparr>Full := TRUE\<rparr> else q1)
               in Inr (TRUE, q2)))
      else Inr (FALSE, Queue))"

text \<open>
  \<open>Queue_ReadData\<close>: the destination pointer \<open>Data\<close> is a block of bytes whose first
  \<open>Size\<close> bytes are overwritten with the slot at \<open>Tail\<close>; the block is returned.
\<close>

definition Queue_ReadData ::
  "QueueType \<Rightarrow> u8 list \<Rightarrow> fault + (u8 \<times> QueueType \<times> u8 list)" where
  "Queue_ReadData Queue Data =
     (if Empty Queue = FALSE then
        (case mem_read (Buffer Queue) (unat (Tail Queue * ucast (Size Queue)))
                (unat (Size Queue)) of
           Inl f \<Rightarrow> Inl f
         | Inr src \<Rightarrow>
        (case mem_write Data 0 src of
           Inl f \<Rightarrow> Inl f
         | Inr dst \<Rightarrow>
             if Elements Queue = 0 then Inl DivByZero
             else
               let t = (Tail Queue + 1) mod Elements Queue;
                   q1 = Queue\<lparr>Full := FALSE, Tail := t\<rparr>;
                   q2 = (if t = Head q1 then q1\<lparr>Empty := TRUE\<rparr> else q1)
               in Inr (TRUE, q2, dst)))
      else Inr (FALSE, Queue, Data))"

definition Queue_isQueueEmpty :: "QueueType \<Rightarrow> u8" where
  "Queue_isQueueEmpty Queue = Empty Queue"

definition Queue_FlushQueue :: "QueueType \<Rightarrow> QueueType" where
  "Queue_FlushQueue Queue = Queue_Init Queue (Buffer Queue) (Elements Queue) (Size Queue)"

subsection \<open>Sequences of queue calls\<close>

datatype queue_op = OpWrite "u8 list" | OpRead "u8 list" | OpIsEmpty | OpFlush

fun queue_step :: "QueueType \<Rightarrow> queue_op \<Rightarrow> fault + QueueType" where
  "queue_step q (OpWrite d) =
     (case Queue_WriteData q d of Inl f \<Rightarrow> Inl f | Inr (r, q') \<Rightarrow> Inr q')"
| "queue_step q (OpRead d) =
     (case Queue_ReadData q d of Inl f \<Rightarrow> Inl f | Inr (r, q', d') \<Rightarrow> Inr q')"
| "queue_step q OpIsEmpty = (case Queue_isQueueEmpty q of r \<Rightarrow> Inr q)"
| "queue_step q OpFlush = Inr (Queue_FlushQueue q)"

fun queue_run :: "QueueType \<Rightarrow> queue_op list \<Rightarrow> fault + QueueType" where
  "queue_run q [] = Inr q"
| "queue_run q (x # xs) =
     (case queue_step q x of Inl f \<Rightarrow> Inl f | Inr q' \<Rightarrow> queue_run q' xs)"

text \<open>
  Writing a list of elements one after the other, collecting the return values;
  reading \<open>n\<close> times, each time into a fresh zeroed block of \<open>Size\<close> bytes,
  collecting the return value and the block after the call.
\<close>

fun write_all :: "QueueType \<Rightarrow> u8 list list \<Rightarrow> fault + (u8 list \<times> QueueType)" where
  "write_all q [] = Inr ([], q)"
| "write_all q (e # es) =
     (case Queue_WriteData q e of
        Inl f \<Rightarrow> Inl f
      | Inr (r, q') \<Rightarrow>
          (case write_all q' es of Inl f \<Rightarrow> Inl f | Inr (rs, q'') \<Rightarrow> Inr (r # rs, q'')))"

fun read_all :: "QueueType \<Rightarrow> nat \<Rightarrow> fault + ((u8 \<times> u8 list) list \<times> QueueType)" where
  "read_all q 0 = Inr ([], q)"
| "read_all q (Suc n) =
     (case Queue_ReadData q (replicate (unat (Size q)) 0) of
        Inl f \<Rightarrow> Inl f
      | Inr (r, q', d) \<Rightarrow>
          (case read_all q' n of Inl f \<Rightarrow> Inl f | Inr (rs, q'') \<Rightarrow> Inr ((r, d) # rs, q'')))"

text \<open>
  The invariant of the control block. The flags are bytes; a flag is set when it is
  not \<open>FALSE\<close>, which is how the source tests it.
\<close>

definition queue_inv :: "QueueType \<Rightarrow> bool" where
  "queue_inv q =
     (Head q < Elements q \<and> Tail q < Elements q
      \<and> (Full q \<noteq> FALSE \<longrightarrow> Head q = Tail q)
      \<and> (Empty q \<noteq> FALSE \<longrightarrow> Head q = Tail q)
      \<and> \<not> (Full q \<noteq> FALSE \<and> Empty q \<noteq> FALSE))"

text \<open>
  A call sequence is well-formed for element size \<open>S\<close> when every data pointer
  refers to at least \<open>S\<close> bytes.
\<close>

fun op_ok :: "u8 \<Rightarrow> queue_op \<Rightarrow> bool" where
  "op_ok S (OpWrite d) = (unat S \<le> length d)"
| "op_ok S (OpRead d) = (unat S \<le> length d)"
| "op_ok S OpIsEmpty = True"
| "op_ok S OpFlush = True"

text \<open>A control block before \<open>Queue_Init\<close> has run on it.\<close>

definition blank_queue :: QueueType where
  "blank_queue =
     \<lparr>Buffer = [], Elements = 0, Size = 0, Head = 0, Tail = 0, Empty = 0, Full = 0\<rparr>"

section \<open>Button handler (buttons.h, buttons.c)\<close>

abbreviation (input) BTN_IDLE :: u8 where "BTN_IDLE \<equiv> 0"
abbreviation (input) BTN_PRESSED :: u8 where "BTN_PRESSED \<equiv> 1"
abbreviation (input) BTN_RELEASED :: u8 where "BTN_RELEASED \<equiv> 2"

abbreviation (input) BTN_INACTIVE :: u8 where "BTN_INACTIVE \<equiv> 0"
abbreviation (input) BTN_ACTIVE :: u8 where "BTN_ACTIVE \<equiv> 1"

abbreviation (input) ST_IDLE :: u8 where "ST_IDLE \<equiv> 0"
abbreviation (input) ST_PRESS :: u8 where "ST_PRESS \<equiv> 1"
abbreviation (input) ST_HOLD :: u8 where "ST_HOLD \<equiv> 2"
abbreviation (input) ST_RELEASE :: u8 where "ST_RELEASE \<equiv> 3"

record ButtonType =
  Pin :: u8
  Port :: u8
  Counter :: u8
  Event :: u8
  Status :: u8
  ActiveLevel :: u8
  smState :: u8

text \<open>
  The keyboard structure has a field \<open>Counter\<close> of its own (the number of registered
  buttons); it is written \<open>KeyboardType.Counter\<close>, the sample counter of a button
  \<open>ButtonType.Counter\<close>.
\<close>

record KeyboardType =
  Buttons :: u8
  Sample :: u8
  Counter :: u8
  BtnBuffer :: "ButtonType list"

text \<open>
  The pin-read capability \<^verbatim>\<open>HAL_GPIO_ReadPin(Ports[Port], 1 << Pin)\<close> belongs to the board
  support package, which is not part of the sources: it is a parameter, a function from
  the port and the pin of a button to the level read at this tick.
\<close>

type_synonym pin_read = "u8 \<Rightarrow> u8 \<Rightarrow> u8"

text \<open>
  \<open>BtnBuffer[i]\<close> with a C \<^verbatim>\<open>int\<close> index: \<open>Button - 1\<close> is computed after integer
  promotion, so it is \<open>-1\<close> for \<open>Button = 0\<close>.
\<close>

definition btn_at :: "ButtonType list \<Rightarrow> int \<Rightarrow> fault + ButtonType" where
  "btn_at buf i =
     (if 0 \<le> i \<and> i < int (length buf) then Inr (buf ! nat i) else Inl OutOfBounds)"

definition Buttons_Init :: "KeyboardType \<Rightarrow> u8 \<Rightarrow> u8 \<Rightarrow> ButtonType list \<Rightarrow> KeyboardType" where
  "Buttons_Init Btns NButtons Samples Buf =
     Btns\<lparr>Buttons := NButtons, Sample := Samples, BtnBuffer := Buf,
          KeyboardType.Counter := 0\<rparr>"

definition Buttons_Register ::
  "KeyboardType \<Rightarrow> u8 \<Rightarrow> u8 \<Rightarrow> u8 \<Rightarrow> fault + (u8 \<times> KeyboardType)" where
  "Buttons_Register Btns P Prt Lvl =
     (if KeyboardType.Counter Btns < Buttons Btns then
        (case btn_at (BtnBuffer Btns) (uint (KeyboardType.Counter Btns)) of
           Inl f \<Rightarrow> Inl f
         | Inr b \<Rightarrow>
             let b' = b\<lparr>Pin := P, Port := Prt, ActiveLevel := Lvl,
                        Status := BTN_INACTIVE, Event := BTN_IDLE, smState := ST_IDLE\<rparr>;
                 c = KeyboardType.Counter Btns + 1
             in Inr (c, Btns\<lparr>BtnBuffer := (BtnBuffer Btns)[unat (KeyboardType.Counter Btns) := b'],
                             KeyboardType.Counter := c\<rparr>))
      else Inr (0, Btns))"

definition Buttons_GetStatus :: "KeyboardType \<Rightarrow> u8 \<Rightarrow> fault + u8" where
  "Buttons_GetStatus Btns Button =
     (if Button < KeyboardType.Counter Btns then
        (case btn_at (BtnBuffer Btns) (uint Button - 1) of
           Inl f \<Rightarrow> Inl f
         | Inr b \<Rightarrow> Inr (Status b))
      else Inr BTN_INACTIVE)"

definition Buttons_GetEvent :: "KeyboardType \<Rightarrow> u8 \<Rightarrow> fault + (u8 \<times> KeyboardType)" where
  "Buttons_GetEvent Btns Button =
     (if Button \<le> KeyboardType.Counter Btns then
        (case btn_at (BtnBuffer Btns) (uint Button - 1) of
           Inl f \<Rightarrow> Inl f
         | Inr b \<Rightarrow>
             Inr (Event b,
                  Btns\<lparr>BtnBuffer := (BtnBuffer Btns)[nat (uint Button - 1) := b\<lparr>Event := BTN_IDLE\<rparr>]\<rparr>))
      else Inr (BTN_IDLE, Btns))"

text \<open>
  \<open>Sample_Button\<close>, one case of the \<^verbatim>\<open>switch\<close> per branch. In \<open>ST_PRESS\<close> and
  \<open>ST_RELEASE\<close> the source runs three statements in a row: the increment, the level
  test and the threshold test; the threshold test is not in an \<^verbatim>\<open>else\<close> branch.
  A state value outside the four cases matches no case and leaves the button as it is.
\<close>

definition Sample_Button :: "pin_read \<Rightarrow> ButtonType \<Rightarrow> u8 \<Rightarrow> ButtonType" where
  "Sample_Button ReadPin Button Samples =
     (if smState Button = ST_IDLE then
        (if ReadPin (Port Button) (Pin Button) = ActiveLevel Button
         then Button\<lparr>smState := ST_PRESS, ButtonType.Counter := 0\<rparr>
         else Button)
      else if smState Button = ST_PRESS then
        (let b1 = Button\<lparr>ButtonType.Counter := ButtonType.Counter Button + 1\<rparr>;
             b2 = (if ReadPin (Port b1) (Pin b1) \<noteq> ActiveLevel b1
                   then b1\<lparr>smState := ST_IDLE\<rparr> else b1);
             b3 = (if ButtonType.Counter b2 \<ge> Samples
                   then b2\<lparr>Event := BTN_PRESSED, Status := BTN_ACTIVE, smState := ST_HOLD\<rparr>
                   else b2)
         in b3)
      else if smState Button = ST_HOLD then
        (if ReadPin (Port Button) (Pin Button) \<noteq> ActiveLevel Button
         then Button\<lparr>smState := ST_RELEASE, ButtonType.Counter := 0\<rparr>
         else Button)
      else if smState Button = ST_RELEASE then
        (let b1 = Button\<lparr>ButtonType.Counter := ButtonType.Counter Button + 1\<rparr>;
             b2 = (if ReadPin (Port b1) (Pin b1) = ActiveLevel b1
                   then b1\<lparr>smState := ST_HOLD\<rparr> else b1);
             b3 = (if ButtonType.Counter b2 \<ge> Samples
                   then b2\<lparr>Event := BTN_RELEASED, Status := BTN_INACTIVE, smState := ST_IDLE\<rparr>
                   else b2)
         in b3)
      else Button)"

text \<open>
  The \<^verbatim>\<open>for\<close> loop of \<open>Buttons_MainFunction\<close>, with its 8-bit index \<open>btn\<close>.
\<close>

function MainFunction_loop :: "pin_read \<Rightarrow> KeyboardType \<Rightarrow> u8 \<Rightarrow> fault + KeyboardType" where
  "MainFunction_loop ReadPin Btns btn =
     (if btn < KeyboardType.Counter Btns then
        (case btn_at (BtnBuffer Btns) (uint btn) of
           Inl f \<Rightarrow> Inl f
         | Inr b \<Rightarrow>
             MainFunction_loop ReadPin
               (Btns\<lparr>BtnBuffer := (BtnBuffer Btns)[unat btn := Sample_Button ReadPin b (Sample Btns)]\<rparr>)
               (btn + 1))
      else Inr Btns)"
  by pat_completeness auto
termination
proof (relation "measure (\<lambda>(ReadPin, Btns, btn). unat (KeyboardType.Counter Btns) - unat btn)")
  show "wf (measure (\<lambda>(ReadPin, Btns, btn). unat (KeyboardType.Counter Btns) - unat btn))"
    by simp
next
  fix ReadPin :: pin_read and Btns :: KeyboardType and btn :: u8 and b :: ButtonType
  assume lt: "btn < KeyboardType.Counter Btns"
  have a: "unat btn < unat (KeyboardType.Counter Btns)"
    using lt by (simp add: word_less_nat_alt)
  have "unat (KeyboardType.Counter Btns) < 2 ^ 8"
    using unsigned_less [of "KeyboardType.Counter Btns", where 'a = nat] by simp
  with a have "unat btn + unat (1 :: u8) < 2 ^ LENGTH(8)" by simp
  then have "unat (btn + 1) = unat btn + unat (1 :: u8)" by (simp only: unat_add_lem)
  then have b: "unat (btn + 1) = Suc (unat btn)" by simp
  show "((ReadPin,
          Btns\<lparr>BtnBuffer := (BtnBuffer Btns)[unat btn := Sample_Button ReadPin b (Sample Btns)]\<rparr>,
          btn + 1),
         (ReadPin, Btns, btn))
        \<in> measure (\<lambda>(ReadPin, Btns, btn). unat (KeyboardType.Counter Btns) - unat btn)"
    using a b by simp
qed

definition Buttons_MainFunction :: "pin_read \<Rightarrow> KeyboardType \<Rightarrow> fault + KeyboardType" where
  "Buttons_MainFunction ReadPin Btns = MainFunction_loop ReadPin Btns 0"

subsection \<open>Sequences of calls on the button handler\<close>

text \<open>Periodic ticks: one pin-read function per call of \<open>Buttons_MainFunction\<close>.\<close>

fun Buttons_ticks :: "KeyboardType \<Rightarrow> pin_read list \<Rightarrow> fault + KeyboardType" where
  "Buttons_ticks kb [] = Inr kb"
| "Buttons_ticks kb (r # rs) =
     (case Buttons_MainFunction r kb of Inl f \<Rightarrow> Inl f | Inr kb' \<Rightarrow> Buttons_ticks kb' rs)"

datatype keyboard_op =
  OpRegister u8 u8 u8 | OpGetStatus u8 | OpGetEvent u8 | OpMainFunction pin_read

fun keyboard_step :: "KeyboardType \<Rightarrow> keyboard_op \<Rightarrow> fault + KeyboardType" where
  "keyboard_step kb (OpRegister p prt lvl) =
     (case Buttons_Register kb p prt lvl of Inl f \<Rightarrow> Inl f | Inr (r, kb') \<Rightarrow> Inr kb')"
| "keyboard_step kb (OpGetStatus i) =
     (case Buttons_GetStatus kb i of Inl f \<Rightarrow> Inl f | Inr r \<Rightarrow> Inr kb)"
| "keyboard_step kb (OpGetEvent i) =
     (case Buttons_GetEvent kb i of Inl f \<Rightarrow> Inl f | Inr (r, kb') \<Rightarrow> Inr kb')"
| "keyboard_step kb (OpMainFunction rd) = Buttons_MainFunction rd kb"

fun keyboard_run :: "KeyboardType \<Rightarrow> keyboard_op list \<Rightarrow> fault + KeyboardType" where
  "keyboard_run kb [] = Inr kb"
| "keyboard_run kb (x # xs) =
     (case keyboard_step kb x of Inl f \<Rightarrow> Inl f | Inr kb' \<Rightarrow> keyboard_run kb' xs)"

fun is_register :: "keyboard_op \<Rightarrow> bool" where
  "is_register (OpRegister p prt lvl) = True"
| "is_register x = False"

text \<open>The configuration of a button: the fields written by registration only.\<close>

definition config :: "ButtonType \<Rightarrow> u8 \<times> u8 \<times> u8" where
  "config b = (Pin b, Port b, ActiveLevel b)"

text \<open>Storage before use: a button entry and a keyboard structure with all bytes zero.\<close>

definition blank_button :: ButtonType where
  "blank_button =
     \<lparr>Pin = 0, Port = 0, Counter = 0, Event = 0, Status = 0, ActiveLevel = 0, smState = 0\<rparr>"

definition blank_keyboard :: KeyboardType where
  "blank_keyboard = \<lparr>Buttons = 0, Sample = 0, Counter = 0, BtnBuffer = []\<rparr>"

text \<open>
  Concrete inputs: a pin that reads the same level \<open>l\<close> on every port and pin; a keyboard
  of capacity one holding one registered button (pin 5, port 2, active level 1) in a
  given machine state; the calls that register this button on fresh storage; and the
  keyboard after each tick of a sequence.
\<close>

definition level :: "u8 \<Rightarrow> pin_read" where
  "level l = (\<lambda>port pin. l)"

definition one_button_in :: "u8 \<Rightarrow> u8 \<Rightarrow> u8 \<Rightarrow> u8 \<Rightarrow> u8 \<Rightarrow> KeyboardType" where
  "one_button_in N st c sts ev =
     \<lparr>Buttons = 1, Sample = N, Counter = 1,
      BtnBuffer = [\<lparr>Pin = 5, Port = 2, Counter = c, Event = ev, Status = sts,
                    ActiveLevel = 1, smState = st\<rparr>]\<rparr>"

definition one_button :: "u8 \<Rightarrow> fault + (u8 \<times> KeyboardType)" where
  "one_button N = Buttons_Register (Buttons_Init blank_keyboard 1 N [blank_button]) 5 2 1"

fun Buttons_trace :: "KeyboardType \<Rightarrow> pin_read list \<Rightarrow> fault + KeyboardType list" where
  "Buttons_trace kb [] = Inr []"
| "Buttons_trace kb (r # rs) =
     (case Buttons_MainFunction r kb of
        Inl f \<Rightarrow> Inl f
      | Inr kb' \<Rightarrow>
          (case Buttons_trace kb' rs of Inl f \<Rightarrow> Inl f | Inr ks \<Rightarrow> Inr (kb' # ks)))"

text \<open>
  A tick confirms an edge on a button when \<open>Sample_Button\<close> takes it from \<open>ST_PRESS\<close> to
  \<open>ST_HOLD\<close> (a press) or from \<open>ST_RELEASE\<close> to \<open>ST_IDLE\<close> (a release). A sequence of
  ticks is quiet for the entry \<open>j\<close> of the storage when none of its ticks confirms an
  edge on that entry.
\<close>

definition confirms_edge :: "pin_read \<Rightarrow> ButtonType \<Rightarrow> u8 \<Rightarrow> bool" where
  "confirms_edge rd b N =
     (smState b = ST_PRESS \<and> smState (Sample_Button rd b N) = ST_HOLD
      \<or> smState b = ST_RELEASE \<and> smState (Sample_Button rd b N) = ST_IDLE)"

fun quiet_ticks :: "nat \<Rightarrow> KeyboardType \<Rightarrow> pin_read list \<Rightarrow> bool" where
  "quiet_ticks j kb [] = True"
| "quiet_ticks j kb (r # rs) =
     (\<not> confirms_edge r (BtnBuffer kb ! j) (Sample kb)
      \<and> (case Buttons_MainFunction r kb of Inl f \<Rightarrow> True | Inr kb' \<Rightarrow> quiet_ticks j kb' rs))"

section \<open>Word arithmetic of indices and slot offsets\<close>

lemma unat_ucast_u8_u32: "unat (ucast (s :: u8) :: u32) = unat s"
proof -
  have "unat s < 2 ^ 8" using unsigned_less [of s, where 'a = nat] by simp
  then have "unat s < 2 ^ 32" by simp
  then show ?thesis
    by (simp add: unsigned_ucast_eq take_bit_nat_eq_self)
qed

lemma word_succ_unat:
  fixes h c :: "'a::len word"
  assumes "h < c"
  shows "unat (h + 1) = Suc (unat h)"
proof -
  have a: "unat h < unat c" using assms by (simp add: word_less_nat_alt)
  have b: "unat c < 2 ^ LENGTH('a)" by (rule unsigned_less)
  from a b have "unat h + 1 < 2 ^ LENGTH('a)" by linarith
  then have "unat h + unat (1 :: 'a word) < 2 ^ LENGTH('a)" by (simp only: unat_1)
  then have "unat (h + 1) = unat h + unat (1 :: 'a word)" by (simp only: unat_add_lem)
  then show ?thesis by (simp only: unat_1 Suc_eq_plus1)
qed

lemma u32_succ_unat:
  fixes h c :: u32
  assumes "h < c"
  shows "unat (h + 1) = Suc (unat h)"
  using assms by (rule word_succ_unat)

lemma u32_succ_mod:
  fixes h c :: u32
  assumes "h < c"
  shows "unat ((h + 1) mod c) = Suc (unat h) mod unat c"
  using u32_succ_unat [OF assms] by (simp add: unat_mod)

lemma u32_succ_mod_less:
  fixes h c :: u32
  assumes "c \<noteq> 0"
  shows "(h + 1) mod c < c"
  using assms by (simp add: word_mod_less_divisor word_neq_0_conv)

lemma slot_offset_le:
  fixes h c :: u32 and s :: u8
  assumes "h < c"
  shows "unat (h * ucast s) + unat s \<le> unat c * unat s"
proof -
  have "unat (h * (ucast s :: u32)) \<le> unat h * unat (ucast s :: u32)"
    by (simp add: unat_word_ariths)
  moreover have "Suc (unat h) \<le> unat c"
    using assms by (simp add: word_less_nat_alt)
  then have "Suc (unat h) * unat s \<le> unat c * unat s"
    by (rule mult_le_mono1)
  ultimately show ?thesis by (simp add: unat_ucast_u8_u32)
qed

lemma slot_offset_exact:
  fixes h c :: u32 and s :: u8
  assumes "h < c" and "unat c * unat s < 2 ^ 32"
  shows "unat (h * ucast s) = unat h * unat s"
proof -
  have "unat h \<le> unat c" using assms(1) by (simp add: word_less_nat_alt)
  then have "unat h * unat s \<le> unat c * unat s" by (rule mult_le_mono1)
  then have "unat h * unat s < 2 ^ 32" using assms(2) by (rule le_less_trans)
  then have "unat h * unat (ucast s :: u32) < 2 ^ LENGTH(32)"
    by (simp add: unat_ucast_u8_u32)
  then have "unat (h * (ucast s :: u32)) = unat h * unat (ucast s :: u32)"
    by (simp only: unat_mult_lem)
  then show ?thesis by (simp add: unat_ucast_u8_u32)
qed

section \<open>Invariant and frame of the queue calls\<close>

lemma mem_write_length: "mem_write m off bs = Inr m' \<Longrightarrow> length m' = length m"
  by (auto simp: mem_write_def split: if_splits)

lemma queue_inv_Elements: "queue_inv q \<Longrightarrow> Elements q \<noteq> 0"
  by (auto simp: queue_inv_def)

lemma Queue_Init_inv: "C \<noteq> 0 \<Longrightarrow> queue_inv (Queue_Init q buf C S)"
  by (simp add: queue_inv_def Queue_Init_def word_neq_0_conv)

lemma Queue_WriteData_inv:
  assumes "queue_inv q" and "Queue_WriteData q d = Inr (r, q')"
  shows "queue_inv q'"
proof (cases "Full q = FALSE")
  case False
  with assms show ?thesis by (simp add: Queue_WriteData_def)
next
  case True
  have ne: "Elements q \<noteq> 0" using assms(1) by (rule queue_inv_Elements)
  have lt: "(Head q + 1) mod Elements q < Elements q" using ne by (rule u32_succ_mod_less)
  from assms(2) True ne obtain buf where
    q': "q' = (let h = (Head q + 1) mod Elements q;
                 q1 = q\<lparr>Buffer := buf, Empty := FALSE, Head := h\<rparr>
             in if h = Tail q1 then q1\<lparr>Full := TRUE\<rparr> else q1)"
    by (auto simp: Queue_WriteData_def Let_def split: sum.splits)
  show ?thesis using assms(1) True lt unfolding q'
    by (auto simp: queue_inv_def Let_def)
qed

lemma Queue_WriteData_frame:
  assumes "Queue_WriteData q d = Inr (r, q')"
  shows "Elements q' = Elements q \<and> Size q' = Size q
         \<and> length (Buffer q') = length (Buffer q)"
  using assms
  by (auto simp: Queue_WriteData_def Let_def split: sum.splits if_splits
           dest: mem_write_length)

lemma Queue_ReadData_inv:
  assumes "queue_inv q" and "Queue_ReadData q d = Inr (r, q', d')"
  shows "queue_inv q'"
proof (cases "Empty q = FALSE")
  case False
  with assms show ?thesis by (simp add: Queue_ReadData_def)
next
  case True
  have ne: "Elements q \<noteq> 0" using assms(1) by (rule queue_inv_Elements)
  have lt: "(Tail q + 1) mod Elements q < Elements q" using ne by (rule u32_succ_mod_less)
  from assms(2) True ne have
    q': "q' = (let t = (Tail q + 1) mod Elements q;
                 q1 = q\<lparr>Full := FALSE, Tail := t\<rparr>
             in if t = Head q1 then q1\<lparr>Empty := TRUE\<rparr> else q1)"
    by (auto simp: Queue_ReadData_def Let_def split: sum.splits)
  show ?thesis using assms(1) True lt unfolding q'
    by (auto simp: queue_inv_def Let_def)
qed

lemma Queue_ReadData_frame:
  assumes "Queue_ReadData q d = Inr (r, q', d')"
  shows "Elements q' = Elements q \<and> Size q' = Size q \<and> Buffer q' = Buffer q"
  using assms
  by (auto simp: Queue_ReadData_def Let_def split: sum.splits if_splits)

lemma Queue_FlushQueue_inv: "queue_inv q \<Longrightarrow> queue_inv (Queue_FlushQueue q)"
  by (simp add: Queue_FlushQueue_def Queue_Init_inv queue_inv_Elements)

lemma Queue_FlushQueue_frame:
  "Elements (Queue_FlushQueue q) = Elements q \<and> Size (Queue_FlushQueue q) = Size q
   \<and> Buffer (Queue_FlushQueue q) = Buffer q"
  by (simp add: Queue_FlushQueue_def Queue_Init_def)

lemma queue_step_inv:
  assumes "queue_inv q" and "queue_step q x = Inr q'"
  shows "queue_inv q'"
proof (cases x)
  case (OpWrite d)
  with assms show ?thesis
    by (auto split: sum.splits dest: Queue_WriteData_inv)
next
  case (OpRead d)
  with assms show ?thesis
    by (auto split: sum.splits dest: Queue_ReadData_inv)
next
  case OpIsEmpty
  with assms show ?thesis by simp
next
  case OpFlush
  with assms show ?thesis by (auto simp: Queue_FlushQueue_inv)
qed

lemma queue_run_inv:
  "queue_inv q \<Longrightarrow> queue_run q xs = Inr q' \<Longrightarrow> queue_inv q'"
proof (induction xs arbitrary: q)
  case Nil
  then show ?case by simp
next
  case (Cons x xs)
  from Cons.prems(2) obtain q1 where s: "queue_step q x = Inr q1" and r: "queue_run q1 xs = Inr q'"
    by (auto split: sum.splits)
  from Cons.prems(1) s have "queue_inv q1" by (rule queue_step_inv)
  then show ?case using r by (rule Cons.IH)
qed


lemma queue_step_frame:
  assumes "queue_step q x = Inr q'"
  shows "Elements q' = Elements q \<and> Size q' = Size q
         \<and> length (Buffer q') = length (Buffer q)"
proof (cases x)
  case (OpWrite d)
  with assms show ?thesis
    by (auto split: sum.splits dest: Queue_WriteData_frame)
next
  case (OpRead d)
  with assms show ?thesis
    by (auto split: sum.splits dest: Queue_ReadData_frame)
next
  case OpIsEmpty
  with assms show ?thesis by auto
next
  case OpFlush
  with assms show ?thesis by (auto simp: Queue_FlushQueue_frame)
qed

lemma queue_run_frame:
  "queue_run q xs = Inr q' \<Longrightarrow>
   Elements q' = Elements q \<and> Size q' = Size q \<and> length (Buffer q') = length (Buffer q)"
proof (induction xs arbitrary: q)
  case Nil
  then show ?case by simp
next
  case (Cons x xs)
  from Cons.prems obtain q1 where s: "queue_step q x = Inr q1" and r: "queue_run q1 xs = Inr q'"
    by (auto split: sum.splits)
  from queue_step_frame [OF s] Cons.IH [OF r] show ?case by simp
qed

lemma Queue_WriteData_ok:
  assumes "queue_inv q" and "unat (Elements q) * unat (Size q) \<le> length (Buffer q)"
    and "unat (Size q) \<le> length d"
  shows "\<exists>r q'. Queue_WriteData q d = Inr (r, q')"
proof -
  have ne: "Elements q \<noteq> 0" using assms(1) by (rule queue_inv_Elements)
  have "Head q < Elements q" using assms(1) by (simp add: queue_inv_def)
  then have "unat (Head q * ucast (Size q)) + unat (Size q) \<le> unat (Elements q) * unat (Size q)"
    by (rule slot_offset_le)
  then have "unat (Head q * ucast (Size q)) + unat (Size q) \<le> length (Buffer q)"
    using assms(2) by (rule le_trans)
  then show ?thesis using ne assms(3)
    by (simp add: Queue_WriteData_def mem_read_def mem_write_def Let_def)
qed

lemma Queue_ReadData_ok:
  assumes "queue_inv q" and "unat (Elements q) * unat (Size q) \<le> length (Buffer q)"
    and "unat (Size q) \<le> length d"
  shows "\<exists>r q' d'. Queue_ReadData q d = Inr (r, q', d')"
proof -
  have ne: "Elements q \<noteq> 0" using assms(1) by (rule queue_inv_Elements)
  have "Tail q < Elements q" using assms(1) by (simp add: queue_inv_def)
  then have "unat (Tail q * ucast (Size q)) + unat (Size q) \<le> unat (Elements q) * unat (Size q)"
    by (rule slot_offset_le)
  then have "unat (Tail q * ucast (Size q)) + unat (Size q) \<le> length (Buffer q)"
    using assms(2) by (rule le_trans)
  then show ?thesis using ne assms(3)
    by (simp add: Queue_ReadData_def mem_read_def mem_write_def Let_def)
qed

lemma queue_step_ok:
  assumes "queue_inv q" and "unat (Elements q) * unat (Size q) \<le> length (Buffer q)"
    and "op_ok (Size q) x"
  shows "\<exists>q'. queue_step q x = Inr q'"
proof (cases x)
  case (OpWrite d)
  with assms Queue_WriteData_ok [of q d] show ?thesis by auto
next
  case (OpRead d)
  with assms Queue_ReadData_ok [of q d] show ?thesis by auto
next
  case OpIsEmpty
  then show ?thesis by simp
next
  case OpFlush
  then show ?thesis by simp
qed

lemma queue_run_ok:
  "queue_inv q \<Longrightarrow> unat (Elements q) * unat (Size q) \<le> length (Buffer q) \<Longrightarrow>
   list_all (op_ok (Size q)) xs \<Longrightarrow> \<exists>q'. queue_run q xs = Inr q'"
proof (induction xs arbitrary: q)
  case Nil
  then show ?case by simp
next
  case (Cons x xs)
  from Cons.prems obtain q1 where s: "queue_step q x = Inr q1"
    using queue_step_ok [of q x] by auto
  have i: "queue_inv q1" using Cons.prems(1) s by (rule queue_step_inv)
  have f: "Elements q1 = Elements q \<and> Size q1 = Size q \<and> length (Buffer q1) = length (Buffer q)"
    using s by (rule queue_step_frame)
  have "\<exists>q'. queue_run q1 xs = Inr q'"
    using i f Cons.prems by (intro Cons.IH) auto
  then show ?case using s by simp
qed

lemma Queue_WriteData_zero_capacity:
  "Queue_WriteData (Queue_Init q buf 0 S) d \<noteq> Inr (r, q')"
  by (simp add: Queue_WriteData_def Queue_Init_def Let_def split: sum.splits)

lemma Queue_WriteData_zero_capacity_div:
  "unat S \<le> length d \<Longrightarrow> unat S \<le> length buf \<Longrightarrow>
   Queue_WriteData (Queue_Init q buf 0 S) d = Inl DivByZero"
  by (simp add: Queue_WriteData_def Queue_Init_def mem_read_def mem_write_def)

section \<open>Filling and draining the queue\<close>

lemma Queue_WriteData_slot:
  assumes nf: "Full q = FALSE" and lt: "Head q < Elements q"
    and len: "length e = unat (Size q)"
    and small: "unat (Elements q) * unat (Size q) < 2 ^ 32"
    and buf: "Buffer q = pre @ rest"
    and pre: "length pre = unat (Head q) * unat (Size q)"
    and rest: "unat (Size q) \<le> length rest"
  shows "Queue_WriteData q e =
           Inr (TRUE, q\<lparr>Buffer := pre @ e @ drop (unat (Size q)) rest, Empty := FALSE,
                         Head := (Head q + 1) mod Elements q,
                         Full := (if (Head q + 1) mod Elements q = Tail q then TRUE else FALSE)\<rparr>)"
proof -
  have off: "unat (Head q * ucast (Size q)) = length pre"
    using slot_offset_exact [OF lt small] pre by simp
  have ne: "Elements q \<noteq> 0" using lt by auto
  have rd: "mem_read e 0 (unat (Size q)) = Inr e"
    using len by (simp add: mem_read_def)
  have wr: "mem_write (Buffer q) (length pre) e = Inr (pre @ e @ drop (unat (Size q)) rest)"
    using buf len rest by (simp add: mem_write_def)
  show ?thesis
    using nf ne by (simp add: Queue_WriteData_def rd off wr Let_def)
qed

lemma Queue_ReadData_slot:
  assumes ne: "Empty q = FALSE" and lt: "Tail q < Elements q"
    and len: "length e = unat (Size q)"
    and small: "unat (Elements q) * unat (Size q) < 2 ^ 32"
    and buf: "Buffer q = pre @ e @ post"
    and pre: "length pre = unat (Tail q) * unat (Size q)"
  shows "Queue_ReadData q (replicate (unat (Size q)) 0) =
           Inr (TRUE, q\<lparr>Full := FALSE, Tail := (Tail q + 1) mod Elements q,
                         Empty := (if (Tail q + 1) mod Elements q = Head q then TRUE else FALSE)\<rparr>, e)"
proof -
  have off: "unat (Tail q * ucast (Size q)) = length pre"
    using slot_offset_exact [OF lt small] pre by simp
  have nz: "Elements q \<noteq> 0" using lt by auto
  have rd: "mem_read (Buffer q) (length pre) (unat (Size q)) = Inr e"
    using buf len by (simp add: mem_read_def)
  have wr: "mem_write (replicate (unat (Size q)) 0) 0 e = Inr e"
    using len by (simp add: mem_write_def)
  show ?thesis
    using ne nz by (simp add: Queue_ReadData_def rd off wr Let_def)
qed

lemma u32_succ_mod_unat_lt:
  fixes h c :: u32
  assumes "Suc (unat h) < unat c"
  shows "unat ((h + 1) mod c) = Suc (unat h)"
proof -
  have "h < c" using assms by (simp add: word_less_nat_alt)
  then have "unat ((h + 1) mod c) = Suc (unat h) mod unat c" by (rule u32_succ_mod)
  then show ?thesis using assms by simp
qed

lemma u32_succ_mod_wrap:
  fixes h c :: u32
  assumes "Suc (unat h) = unat c"
  shows "(h + 1) mod c = 0"
proof -
  have "h < c" using assms by (simp add: word_less_nat_alt)
  then have "unat ((h + 1) mod c) = Suc (unat h) mod unat c" by (rule u32_succ_mod)
  then have "unat ((h + 1) mod c) = 0" using assms by simp
  then show ?thesis by (simp add: unat_eq_0)
qed


lemma write_all_fills:
  assumes "Tail q = 0" and "Full q = FALSE"
    and "unat (Head q) + length es \<le> unat (Elements q)"
    and "\<forall>e\<in>set es. length e = unat (Size q)"
    and "unat (Elements q) * unat (Size q) < 2 ^ 32"
    and "Buffer q = pre @ rest"
    and "length pre = unat (Head q) * unat (Size q)"
    and "length es * unat (Size q) \<le> length rest"
  shows "\<exists>q'. write_all q es = Inr (replicate (length es) TRUE, q')
           \<and> Buffer q' = pre @ concat es @ drop (length es * unat (Size q)) rest
           \<and> Tail q' = 0 \<and> Elements q' = Elements q \<and> Size q' = Size q
           \<and> (es \<noteq> [] \<longrightarrow> Empty q' = FALSE)
           \<and> (es \<noteq> [] \<and> unat (Head q) + length es = unat (Elements q) \<longrightarrow>
                Full q' = TRUE \<and> Head q' = 0)"
  using assms
proof (induction es arbitrary: q pre rest)
  case Nil
  then show ?case by simp
next
  case (Cons e es)
  let ?s = "unat (Size q)"
  let ?h = "(Head q + 1) mod Elements q"
  let ?q1 = "q\<lparr>Buffer := pre @ e @ drop ?s rest, Empty := FALSE, Head := ?h,
               Full := (if ?h = Tail q then TRUE else FALSE)\<rparr>"
  have hl: "Suc (unat (Head q)) + length es \<le> unat (Elements q)"
    using Cons.prems(3) by simp
  then have lt: "Head q < Elements q" by (simp add: word_less_nat_alt)
  have le: "length e = ?s" using Cons.prems(4) by simp
  have rs: "?s + length es * ?s \<le> length rest" using Cons.prems(8) by simp
  then have rs1: "?s \<le> length rest" by simp
  have w: "Queue_WriteData q e = Inr (TRUE, ?q1)"
    using Cons.prems(2) lt le Cons.prems(5) Cons.prems(6) Cons.prems(7) rs1
    by (rule Queue_WriteData_slot)
  show ?case
  proof (cases "es = []")
    case True
    have "unat (Head q) + 1 = unat (Elements q) \<longrightarrow> ?h = 0"
      by (simp add: u32_succ_mod_wrap)
    then show ?thesis using True w Cons.prems(1) by auto
  next
    case False
    with hl have sl: "Suc (unat (Head q)) < unat (Elements q)" by (cases es) auto
    then have uh: "unat ?h = Suc (unat (Head q))" by (rule u32_succ_mod_unat_lt)
    have hz: "?h \<noteq> Tail q"
    proof
      assume eq: "?h = Tail q"
      have "unat (Tail q) = 0" using Cons.prems(1) by simp
      then have "unat ?h = 0" by (simp only: eq)
      with uh show False by simp
    qed
    have q1: "?q1 = q\<lparr>Buffer := pre @ e @ drop ?s rest, Empty := FALSE, Head := ?h\<rparr>"
      using hz Cons.prems(2) by simp
    have p1: "Tail ?q1 = 0" using Cons.prems(1) by simp
    have p2: "Full ?q1 = FALSE" using hz by simp
    have p3: "unat (Head ?q1) + length es \<le> unat (Elements ?q1)" using uh hl by simp
    have p4: "\<forall>x\<in>set es. length x = unat (Size ?q1)" using Cons.prems(4) by simp
    have p5: "unat (Elements ?q1) * unat (Size ?q1) < 2 ^ 32" using Cons.prems(5) by simp
    have p6: "Buffer ?q1 = (pre @ e) @ drop ?s rest" by simp
    have p7: "length (pre @ e) = unat (Head ?q1) * unat (Size ?q1)"
      using uh le Cons.prems(7) by simp
    have p8: "length es * unat (Size ?q1) \<le> length (drop ?s rest)" using rs by simp
    from Cons.IH [OF p1 p2 p3 p4 p5 p6 p7 p8] obtain q' where
      r: "write_all ?q1 es = Inr (replicate (length es) TRUE, q')"
      and b: "Buffer q' = (pre @ e) @ concat es @ drop (length es * unat (Size ?q1)) (drop ?s rest)"
      and t: "Tail q' = 0" "Elements q' = Elements ?q1" "Size q' = Size ?q1"
      and em: "es \<noteq> [] \<longrightarrow> Empty q' = FALSE"
      and fu: "es \<noteq> [] \<and> unat (Head ?q1) + length es = unat (Elements ?q1) \<longrightarrow>
                Full q' = TRUE \<and> Head q' = 0"
      by blast
    have r': "write_all q (e # es) = Inr (replicate (length (e # es)) TRUE, q')"
      using w r by simp
    have b': "Buffer q' = pre @ concat (e # es) @ drop (length (e # es) * ?s) rest"
      using b by (simp add: add.commute)
    have fu': "unat (Head q) + length (e # es) = unat (Elements q) \<longrightarrow>
                Full q' = TRUE \<and> Head q' = 0"
      using fu False uh by simp
    show ?thesis using r' b' t em fu' False by simp
  qed
qed

lemma read_all_drains:
  assumes "Head q = 0" and "es \<noteq> [] \<longrightarrow> Empty q = FALSE"
    and "unat (Tail q) + length es \<le> unat (Elements q)"
    and "\<forall>e\<in>set es. length e = unat (Size q)"
    and "unat (Elements q) * unat (Size q) < 2 ^ 32"
    and "Buffer q = pre @ concat es @ post"
    and "length pre = unat (Tail q) * unat (Size q)"
  shows "\<exists>q'. read_all q (length es) = Inr (map (\<lambda>e. (TRUE, e)) es, q')
           \<and> Buffer q' = Buffer q
           \<and> (es \<noteq> [] \<and> unat (Tail q) + length es = unat (Elements q) \<longrightarrow>
                Empty q' = TRUE \<and> Full q' = FALSE)"
  using assms
proof (induction es arbitrary: q pre)
  case Nil
  then show ?case by simp
next
  case (Cons e es)
  let ?s = "unat (Size q)"
  let ?t = "(Tail q + 1) mod Elements q"
  let ?q1 = "q\<lparr>Full := FALSE, Tail := ?t,
               Empty := (if ?t = Head q then TRUE else FALSE)\<rparr>"
  have tl: "Suc (unat (Tail q)) + length es \<le> unat (Elements q)"
    using Cons.prems(3) by simp
  then have lt: "Tail q < Elements q" by (simp add: word_less_nat_alt)
  have le: "length e = ?s" using Cons.prems(4) by simp
  have ne: "Empty q = FALSE" using Cons.prems(2) by simp
  have bf: "Buffer q = pre @ e @ (concat es @ post)" using Cons.prems(6) by simp
  have r: "Queue_ReadData q (replicate ?s 0) = Inr (TRUE, ?q1, e)"
    using ne lt le Cons.prems(5) bf Cons.prems(7) by (rule Queue_ReadData_slot)
  show ?case
  proof (cases "es = []")
    case True
    have "unat (Tail q) + 1 = unat (Elements q) \<longrightarrow> ?t = 0"
      by (simp add: u32_succ_mod_wrap)
    then show ?thesis using True r Cons.prems(1) by auto
  next
    case False
    with tl have sl: "Suc (unat (Tail q)) < unat (Elements q)" by (cases es) auto
    then have ut: "unat ?t = Suc (unat (Tail q))" by (rule u32_succ_mod_unat_lt)
    have tz: "?t \<noteq> Head q"
    proof
      assume eq: "?t = Head q"
      have "unat (Head q) = 0" using Cons.prems(1) by simp
      then have "unat ?t = 0" by (simp only: eq)
      with ut show False by simp
    qed
    have p1: "Head ?q1 = 0" using Cons.prems(1) by simp
    have p2: "es \<noteq> [] \<longrightarrow> Empty ?q1 = FALSE" using tz by simp
    have p3: "unat (Tail ?q1) + length es \<le> unat (Elements ?q1)" using ut tl by simp
    have p4: "\<forall>x\<in>set es. length x = unat (Size ?q1)" using Cons.prems(4) by simp
    have p5: "unat (Elements ?q1) * unat (Size ?q1) < 2 ^ 32" using Cons.prems(5) by simp
    have p6: "Buffer ?q1 = (pre @ e) @ concat es @ post" using Cons.prems(6) by simp
    have p7: "length (pre @ e) = unat (Tail ?q1) * unat (Size ?q1)"
      using ut le Cons.prems(7) by simp
    from Cons.IH [OF p1 p2 p3 p4 p5 p6 p7] obtain q' where
      a: "read_all ?q1 (length es) = Inr (map (\<lambda>e. (TRUE, e)) es, q')"
      and b: "Buffer q' = Buffer ?q1"
      and c: "es \<noteq> [] \<and> unat (Tail ?q1) + length es = unat (Elements ?q1) \<longrightarrow>
               Empty q' = TRUE \<and> Full q' = FALSE"
      by blast
    have a': "read_all q (length (e # es)) = Inr (map (\<lambda>e. (TRUE, e)) (e # es), q')"
      using r a by simp
    have c': "unat (Tail q) + length (e # es) = unat (Elements q) \<longrightarrow>
               Empty q' = TRUE \<and> Full q' = FALSE"
      using c False ut by simp
    show ?thesis using a' b c' by simp
  qed
qed

text \<open>
  C2. Fill, overflow, drain: starting from the initialised queue with capacity
  \<open>C \<ge> 1\<close> and element size \<open>S\<close>, \<open>C\<close> consecutive \<open>Queue_WriteData\<close> calls all return
  \<open>TRUE\<close>; one more \<open>Queue_WriteData\<close> returns \<open>FALSE\<close> and leaves the whole control
  block and the buffer as they were; \<open>C\<close> \<open>Queue_ReadData\<close> calls then return \<open>TRUE\<close>
  and hand back the written elements byte for byte, in the order they were written;
  the queue reports empty afterwards. A valid queue has a buffer of at least \<open>C * S\<close>
  bytes, a block of the 32-bit address space of the target; the elements are
  \<open>S\<close> bytes each.
\<close>

theorem queue_fill_then_drain:
  assumes "C \<noteq> 0" and "unat C * unat S \<le> length buf" and "length buf < 2 ^ 32"
    and "length es = unat C" and "\<forall>e\<in>set es. length e = unat S"
  shows "\<exists>q1 q2.
           write_all (Queue_Init q buf C S) es = Inr (replicate (unat C) TRUE, q1)
           \<and> Queue_WriteData q1 x = Inr (FALSE, q1)
           \<and> read_all q1 (unat C) = Inr (map (\<lambda>e. (TRUE, e)) es, q2)
           \<and> Queue_isQueueEmpty q2 = TRUE"
proof -
  let ?q = "Queue_Init q buf C S"
  have es: "es \<noteq> []" using assms(1,4) by (auto simp: unat_eq_0)
  have small: "unat (Elements ?q) * unat (Size ?q) < 2 ^ 32"
    using assms(2,3) by (simp add: Queue_Init_def)
  have w1: "Tail ?q = 0" by (simp add: Queue_Init_def)
  have w2: "Full ?q = FALSE" by (simp add: Queue_Init_def)
  have w3: "unat (Head ?q) + length es \<le> unat (Elements ?q)"
    using assms(4) by (simp add: Queue_Init_def)
  have w4: "\<forall>e\<in>set es. length e = unat (Size ?q)"
    using assms(5) by (simp add: Queue_Init_def)
  have w6: "Buffer ?q = [] @ buf" by (simp add: Queue_Init_def)
  have w7: "length ([] :: u8 list) = unat (Head ?q) * unat (Size ?q)"
    by (simp add: Queue_Init_def)
  have w8: "length es * unat (Size ?q) \<le> length buf"
    using assms(2,4) by (simp add: Queue_Init_def)
  from write_all_fills [OF w1 w2 w3 w4 small w6 w7 w8] obtain q1 where
    a: "write_all ?q es = Inr (replicate (length es) TRUE, q1)"
    and b: "Buffer q1 = [] @ concat es @ drop (length es * unat (Size ?q)) buf"
    and t: "Tail q1 = 0" and el: "Elements q1 = Elements ?q" and sz: "Size q1 = Size ?q"
    and em: "es \<noteq> [] \<longrightarrow> Empty q1 = FALSE"
    and fu: "es \<noteq> [] \<and> unat (Head ?q) + length es = unat (Elements ?q) \<longrightarrow>
              Full q1 = TRUE \<and> Head q1 = 0"
    by blast
  have full: "Full q1 = TRUE" and head: "Head q1 = 0"
    using fu es assms(4) by (simp_all add: Queue_Init_def)
  have x: "Queue_WriteData q1 x = Inr (FALSE, q1)"
    using full by (simp add: Queue_WriteData_def)
  have r2: "es \<noteq> [] \<longrightarrow> Empty q1 = FALSE" using em .
  have r3: "unat (Tail q1) + length es \<le> unat (Elements q1)"
    using t el assms(4) by (simp add: Queue_Init_def)
  have r4: "\<forall>e\<in>set es. length e = unat (Size q1)"
    using assms(5) sz by (simp add: Queue_Init_def)
  have r5: "unat (Elements q1) * unat (Size q1) < 2 ^ 32"
    using small el sz by simp
  have r6: "Buffer q1 = [] @ concat es @ drop (length es * unat (Size ?q)) buf"
    using b .
  have r7: "length ([] :: u8 list) = unat (Tail q1) * unat (Size q1)"
    using t by simp
  from read_all_drains [OF head r2 r3 r4 r5 r6 r7] obtain q2 where
    c: "read_all q1 (length es) = Inr (map (\<lambda>e. (TRUE, e)) es, q2)"
    and d: "es \<noteq> [] \<and> unat (Tail q1) + length es = unat (Elements q1) \<longrightarrow>
             Empty q2 = TRUE \<and> Full q2 = FALSE"
    by blast
  have e: "Queue_isQueueEmpty q2 = TRUE"
    using d es t el assms(4) by (simp add: Queue_isQueueEmpty_def Queue_Init_def)
  show ?thesis using a x c e assms(4) by auto
qed


theorem queue_fill_then_drain_witness:
  "(2 :: u32) \<noteq> 0
   \<and> (\<exists>q1 q2.
         write_all (Queue_Init blank_queue [0, 0, 0, 0] 2 2) [[1, 2], [3, 4]]
           = Inr ([TRUE, TRUE], q1)
         \<and> Queue_WriteData q1 [5, 6] = Inr (FALSE, q1)
         \<and> read_all q1 (Suc (Suc 0)) = Inr ([(TRUE, [1, 2]), (TRUE, [3, 4])], q2)
         \<and> Queue_isQueueEmpty q2 = TRUE)"
proof -
  have h1: "(2 :: u32) \<noteq> 0" by simp
  have h2: "unat (2 :: u32) * unat (2 :: u8) \<le> length [0, 0, 0, 0 :: u8]" by simp
  have h3: "length [0, 0, 0, 0 :: u8] < 2 ^ 32" by simp
  have h4: "length [[1, 2], [3, 4 :: u8]] = unat (2 :: u32)" by simp
  have h5: "\<forall>e\<in>set [[1, 2], [3, 4 :: u8]]. length e = unat (2 :: u8)" by simp
  have u: "unat (2 :: u32) = Suc (Suc 0)" by simp
  from queue_fill_then_drain [OF h1 h2 h3 h4 h5, of blank_queue "[5, 6]"] h1
  show ?thesis by (simp only: u replicate.simps list.map simp_thms)
qed

section \<open>Reachable states of the queue\<close>

text \<open>
  C3. Queue invariant: in every state reached from \<open>Queue_Init\<close> with a capacity of at
  least one by any sequence of \<open>Queue_WriteData\<close>, \<open>Queue_ReadData\<close>,
  \<open>Queue_isQueueEmpty\<close> and \<open>Queue_FlushQueue\<close> calls, \<open>Head\<close> and \<open>Tail\<close> are below the
  capacity, \<open>Full\<close> implies \<open>Head = Tail\<close>, \<open>Empty\<close> implies \<open>Head = Tail\<close>, and \<open>Full\<close> and
  \<open>Empty\<close> are never both set.
\<close>

theorem queue_invariant_reachable:
  assumes "C \<noteq> 0" and "queue_run (Queue_Init q buf C S) ops = Inr q'"
  shows "Elements q' = C \<and> Head q' < C \<and> Tail q' < C
         \<and> (Full q' \<noteq> FALSE \<longrightarrow> Head q' = Tail q')
         \<and> (Empty q' \<noteq> FALSE \<longrightarrow> Head q' = Tail q')
         \<and> \<not> (Full q' \<noteq> FALSE \<and> Empty q' \<noteq> FALSE)"
proof -
  have "queue_inv (Queue_Init q buf C S)" using assms(1) by (rule Queue_Init_inv)
  then have i: "queue_inv q'" using assms(2) by (rule queue_run_inv)
  have "Elements q' = Elements (Queue_Init q buf C S)"
    using queue_run_frame [OF assms(2)] by simp
  then have e: "Elements q' = C" by (simp add: Queue_Init_def)
  show ?thesis using i e by (simp add: queue_inv_def)
qed

theorem queue_invariant_reachable_witness:
  "(2 :: u32) \<noteq> 0
   \<and> queue_run (Queue_Init blank_queue [0, 0, 0, 0] 2 2) [OpWrite [1, 2], OpIsEmpty, OpWrite [3, 4]]
       = Inr \<lparr>Buffer = [1, 2, 3, 4], Elements = 2, Size = 2, Head = 0, Tail = 0,
              Empty = FALSE, Full = TRUE\<rparr>
   \<and> Head \<lparr>Buffer = [1, 2, 3, 4], Elements = 2, Size = 2, Head = 0, Tail = 0,
            Empty = FALSE, Full = TRUE\<rparr>
       = Tail \<lparr>Buffer = [1, 2, 3, 4], Elements = 2, Size = 2, Head = 0, Tail = 0,
               Empty = FALSE, Full = TRUE\<rparr>"
proof -
  have c: "(2 :: u32) \<noteq> 0" by simp
  have r: "queue_run (Queue_Init blank_queue [0, 0, 0, 0] 2 2)
             [OpWrite [1, 2], OpIsEmpty, OpWrite [3, 4]]
           = Inr \<lparr>Buffer = [1, 2, 3, 4], Elements = 2, Size = 2, Head = 0, Tail = 0,
                  Empty = FALSE, Full = TRUE\<rparr>"
    by (simp add: Queue_Init_def blank_queue_def Queue_WriteData_def mem_read_def
        mem_write_def Queue_isQueueEmpty_def)
  from queue_invariant_reachable [OF c r] c r show ?thesis by simp
qed

text \<open>
  C9. Precondition on the capacity: after \<open>Queue_Init\<close> with \<open>Elements = 0\<close> the \<open>Full\<close>
  flag is false, so \<open>Queue_WriteData\<close> takes the write branch, where the remainder
  \<open>Head % Elements\<close> has a zero divisor: the call never returns a result, and it reaches
  the division whenever the copy before it stays inside the blocks. With
  \<open>Elements \<ge> 1\<close> and a buffer of at least \<open>Elements * Size\<close> bytes, every sequence of
  calls whose data pointers refer to at least \<open>Size\<close> bytes runs without a zero divisor
  and without an access outside the buffer.
\<close>

theorem queue_capacity_precondition:
  "Full (Queue_Init q buf 0 S) = FALSE
   \<and> (\<forall>r q'. Queue_WriteData (Queue_Init q buf 0 S) d \<noteq> Inr (r, q'))
   \<and> (unat S \<le> length d \<and> unat S \<le> length buf \<longrightarrow>
        Queue_WriteData (Queue_Init q buf 0 S) d = Inl DivByZero)
   \<and> (C \<noteq> 0 \<and> unat C * unat S \<le> length buf \<and> list_all (op_ok S) ops \<longrightarrow>
        (\<exists>q'. queue_run (Queue_Init q buf C S) ops = Inr q'))"
proof -
  have a: "Full (Queue_Init q buf 0 S) = FALSE" by (simp add: Queue_Init_def)
  have b: "\<forall>r q'. Queue_WriteData (Queue_Init q buf 0 S) d \<noteq> Inr (r, q')"
    by (simp add: Queue_WriteData_zero_capacity)
  have c: "unat S \<le> length d \<and> unat S \<le> length buf \<longrightarrow>
           Queue_WriteData (Queue_Init q buf 0 S) d = Inl DivByZero"
    by (simp add: Queue_WriteData_zero_capacity_div)
  have d: "C \<noteq> 0 \<and> unat C * unat S \<le> length buf \<and> list_all (op_ok S) ops \<longrightarrow>
           (\<exists>q'. queue_run (Queue_Init q buf C S) ops = Inr q')"
  proof
    assume h: "C \<noteq> 0 \<and> unat C * unat S \<le> length buf \<and> list_all (op_ok S) ops"
    then have i: "queue_inv (Queue_Init q buf C S)" by (simp add: Queue_Init_inv)
    show "\<exists>q'. queue_run (Queue_Init q buf C S) ops = Inr q'"
      using i h by (intro queue_run_ok) (simp_all add: Queue_Init_def)
  qed
  from a b c d show ?thesis by blast
qed

theorem queue_capacity_precondition_witness:
  "Full (Queue_Init blank_queue [0, 0, 0, 0] 0 2) = FALSE
   \<and> Queue_WriteData (Queue_Init blank_queue [0, 0, 0, 0] 0 2) [1, 2] = Inl DivByZero
   \<and> (\<exists>q'. queue_run (Queue_Init blank_queue [0, 0, 0, 0] 2 2)
              [OpWrite [1, 2], OpRead [0, 0], OpRead [0, 0], OpFlush, OpIsEmpty] = Inr q')"
proof -
  have h1: "unat (2 :: u8) \<le> length [1, 2 :: u8] \<and> unat (2 :: u8) \<le> length [0, 0, 0, 0 :: u8]"
    by simp
  have h2: "(2 :: u32) \<noteq> 0 \<and> unat (2 :: u32) * unat (2 :: u8) \<le> length [0, 0, 0, 0 :: u8]
            \<and> list_all (op_ok 2) [OpWrite [1, 2], OpRead [0, 0], OpRead [0, 0], OpFlush, OpIsEmpty]"
    by simp
  from queue_capacity_precondition
         [of blank_queue "[0, 0, 0, 0]" 2 "[1, 2]" 2
             "[OpWrite [1, 2], OpRead [0, 0], OpRead [0, 0], OpFlush, OpIsEmpty]"]
       h1 h2
  show ?thesis by blast
qed

section \<open>Properties of the button handler\<close>

lemma one_button_eq:
  "one_button N = Inr (1, one_button_in N ST_IDLE 0 BTN_INACTIVE BTN_IDLE)"
  by (simp add: one_button_def one_button_in_def Buttons_Register_def Buttons_Init_def
      blank_keyboard_def blank_button_def btn_at_def)

lemmas button_eval =
  one_button_in_def Buttons_MainFunction_def btn_at_def Sample_Button_def level_def Let_def
  word_le_nat_alt word_less_nat_alt

lemma Sample_Button_config: "config (Sample_Button rd b N) = config b"
  by (simp add: Sample_Button_def config_def Let_def)

lemma btn_at_Inr:
  "btn_at buf i = Inr b \<Longrightarrow> 0 \<le> i \<and> nat i < length buf \<and> b = buf ! nat i"
  by (auto simp: btn_at_def split: if_splits)

lemma map_config_update:
  assumes "i < length buf" and "config b = config (buf ! i)"
  shows "map config (buf[i := b]) = map config buf"
  using assms by (simp add: map_update list_update_same_conv)

lemma MainFunction_loop_frame:
  "MainFunction_loop rd kb btn = Inr kb' \<Longrightarrow>
   Buttons kb' = Buttons kb \<and> Sample kb' = Sample kb
   \<and> KeyboardType.Counter kb' = KeyboardType.Counter kb
   \<and> map config (BtnBuffer kb') = map config (BtnBuffer kb)"
proof (induction rd kb btn rule: MainFunction_loop.induct)
  case (1 rd kb btn)
  show ?case
  proof (cases "btn < KeyboardType.Counter kb")
    case False
    with "1.prems" show ?thesis by (simp add: MainFunction_loop.simps [of rd kb btn])
  next
    case True
    from "1.prems" True obtain b where
      b: "btn_at (BtnBuffer kb) (uint btn) = Inr b"
      and r: "MainFunction_loop rd
                (kb\<lparr>BtnBuffer := (BtnBuffer kb)[unat btn := Sample_Button rd b (Sample kb)]\<rparr>)
                (btn + 1) = Inr kb'"
      by (auto simp: MainFunction_loop.simps [of rd kb btn] split: sum.splits)
    from btn_at_Inr [OF b] have i: "unat btn < length (BtnBuffer kb)"
      and e: "b = BtnBuffer kb ! unat btn" by simp_all
    have c: "config (Sample_Button rd b (Sample kb)) = config (BtnBuffer kb ! unat btn)"
      using e by (simp add: Sample_Button_config)
    from "1.IH" [OF True b r] map_config_update [OF i c] show ?thesis by simp
  qed
qed

lemma Buttons_GetEvent_frame:
  "Buttons_GetEvent kb i = Inr (e, kb') \<Longrightarrow>
   Buttons kb' = Buttons kb \<and> Sample kb' = Sample kb
   \<and> KeyboardType.Counter kb' = KeyboardType.Counter kb
   \<and> map config (BtnBuffer kb') = map config (BtnBuffer kb)"
proof (cases "i \<le> KeyboardType.Counter kb")
  case False
  assume "Buttons_GetEvent kb i = Inr (e, kb')"
  with False show ?thesis by (simp add: Buttons_GetEvent_def)
next
  case True
  assume "Buttons_GetEvent kb i = Inr (e, kb')"
  with True obtain b where
    b: "btn_at (BtnBuffer kb) (uint i - 1) = Inr b"
    and k: "kb' = kb\<lparr>BtnBuffer := (BtnBuffer kb)[nat (uint i - 1) := b\<lparr>Event := BTN_IDLE\<rparr>]\<rparr>"
    by (auto simp: Buttons_GetEvent_def split: sum.splits)
  from btn_at_Inr [OF b] have j: "nat (uint i - 1) < length (BtnBuffer kb)"
    and e: "b = BtnBuffer kb ! nat (uint i - 1)" by simp_all
  have c: "config (b\<lparr>Event := BTN_IDLE\<rparr>) = config (BtnBuffer kb ! nat (uint i - 1))"
    using e by (simp add: config_def)
  from map_config_update [OF j c] k show ?thesis by simp
qed


lemma uint_less_length: "unat (c :: u8) < n \<Longrightarrow> uint c < int n"
  using nat_less_iff [of "uint c" n] by simp

lemma btn_at_unat:
  assumes "unat (c :: u8) < length buf"
  shows "btn_at buf (uint c) = Inr (buf ! unat c)"
proof -
  have "uint c < int (length buf)" using assms by (rule uint_less_length)
  then show ?thesis by (simp add: btn_at_def)
qed

lemma btn_at_pred:
  assumes "1 \<le> (i :: u8)" and "unat i \<le> length buf"
  shows "btn_at buf (uint i - 1) = Inr (buf ! (unat i - 1))
         \<and> nat (uint i - 1) = unat i - 1 \<and> unat i - 1 < length buf"
proof -
  have u: "1 \<le> uint i" using assms(1) by (simp add: word_le_def)
  have n: "nat (uint i - 1) = unat i - 1"
    using nat_diff_distrib [of 1 "uint i"] u by simp
  have "1 \<le> unat i" using assms(1) by (simp add: word_le_nat_alt)
  then have l: "unat i - 1 < length buf" using assms(2) by simp
  then have "nat (uint i - 1) < length buf" using n by simp
  then have "uint i - 1 < int (length buf)"
    using nat_less_iff [of "uint i - 1" "length buf"] u by simp
  then have "btn_at buf (uint i - 1) = Inr (buf ! nat (uint i - 1))"
    using u by (simp add: btn_at_def)
  then show ?thesis using n l by simp
qed

lemma Buttons_Register_room:
  assumes "KeyboardType.Counter kb < Buttons kb"
    and "unat (Buttons kb) \<le> length (BtnBuffer kb)"
  shows "Buttons_Register kb p prt lvl =
           Inr (KeyboardType.Counter kb + 1,
                kb\<lparr>BtnBuffer := (BtnBuffer kb)[unat (KeyboardType.Counter kb) :=
                       (BtnBuffer kb ! unat (KeyboardType.Counter kb))
                         \<lparr>Pin := p, Port := prt, ActiveLevel := lvl, Status := BTN_INACTIVE,
                          Event := BTN_IDLE, smState := ST_IDLE\<rparr>],
                    KeyboardType.Counter := KeyboardType.Counter kb + 1\<rparr>)"
proof -
  have "unat (KeyboardType.Counter kb) < unat (Buttons kb)"
    using assms(1) by (simp add: word_less_nat_alt)
  then have "unat (KeyboardType.Counter kb) < length (BtnBuffer kb)"
    using assms(2) by simp
  then have "btn_at (BtnBuffer kb) (uint (KeyboardType.Counter kb))
             = Inr (BtnBuffer kb ! unat (KeyboardType.Counter kb))"
    by (rule btn_at_unat)
  then show ?thesis using assms(1) by (simp add: Buttons_Register_def Let_def)
qed

lemma Buttons_Register_frame:
  assumes "Buttons_Register kb p prt lvl = Inr (r, kb')"
  shows "Buttons kb' = Buttons kb \<and> Sample kb' = Sample kb
         \<and> length (BtnBuffer kb') = length (BtnBuffer kb)
         \<and> unat (KeyboardType.Counter kb) \<le> unat (KeyboardType.Counter kb')
         \<and> (\<forall>j. j < unat (KeyboardType.Counter kb) \<longrightarrow>
               BtnBuffer kb' ! j = BtnBuffer kb ! j)"
proof (cases "KeyboardType.Counter kb < Buttons kb")
  case False
  with assms show ?thesis by (simp add: Buttons_Register_def)
next
  case True
  have s: "unat (KeyboardType.Counter kb + 1) = Suc (unat (KeyboardType.Counter kb))"
    using True by (rule word_succ_unat)
  from assms True obtain b where
    "kb' = kb\<lparr>BtnBuffer := (BtnBuffer kb)[unat (KeyboardType.Counter kb) := b],
              KeyboardType.Counter := KeyboardType.Counter kb + 1\<rparr>"
    by (auto simp: Buttons_Register_def Let_def split: sum.splits)
  then show ?thesis using s by simp
qed

lemma keyboard_step_frame:
  assumes "keyboard_step kb x = Inr kb'"
  shows "Buttons kb' = Buttons kb \<and> Sample kb' = Sample kb
         \<and> length (BtnBuffer kb') = length (BtnBuffer kb)
         \<and> unat (KeyboardType.Counter kb) \<le> unat (KeyboardType.Counter kb')
         \<and> (\<forall>j. j < unat (KeyboardType.Counter kb) \<and> j < length (BtnBuffer kb) \<longrightarrow>
               config (BtnBuffer kb' ! j) = config (BtnBuffer kb ! j))
         \<and> (\<not> is_register x \<longrightarrow>
               KeyboardType.Counter kb' = KeyboardType.Counter kb
               \<and> map config (BtnBuffer kb') = map config (BtnBuffer kb))"
proof (cases x)
  case (OpRegister p prt lvl)
  with assms obtain r where "Buttons_Register kb p prt lvl = Inr (r, kb')"
    by (auto split: sum.splits)
  from Buttons_Register_frame [OF this] OpRegister show ?thesis by simp
next
  case (OpGetStatus i)
  with assms have "kb' = kb" by (auto split: sum.splits)
  with OpGetStatus show ?thesis by simp
next
  case (OpGetEvent i)
  with assms obtain e where "Buttons_GetEvent kb i = Inr (e, kb')"
    by (auto split: sum.splits)
  from Buttons_GetEvent_frame [OF this] have
    f: "Buttons kb' = Buttons kb \<and> Sample kb' = Sample kb
        \<and> KeyboardType.Counter kb' = KeyboardType.Counter kb"
    and m: "map config (BtnBuffer kb') = map config (BtnBuffer kb)" by simp_all
  from m have l: "length (BtnBuffer kb') = length (BtnBuffer kb)" by (rule map_eq_imp_length_eq)
  have "\<forall>j. j < length (BtnBuffer kb) \<longrightarrow>
          config (BtnBuffer kb' ! j) = config (BtnBuffer kb ! j)"
    using m l by (metis nth_map)
  with f m l OpGetEvent show ?thesis by simp
next
  case (OpMainFunction rd)
  with assms have "MainFunction_loop rd kb 0 = Inr kb'"
    by (simp add: Buttons_MainFunction_def)
  from MainFunction_loop_frame [OF this] have
    f: "Buttons kb' = Buttons kb \<and> Sample kb' = Sample kb
        \<and> KeyboardType.Counter kb' = KeyboardType.Counter kb"
    and m: "map config (BtnBuffer kb') = map config (BtnBuffer kb)" by simp_all
  from m have l: "length (BtnBuffer kb') = length (BtnBuffer kb)" by (rule map_eq_imp_length_eq)
  have "\<forall>j. j < length (BtnBuffer kb) \<longrightarrow>
          config (BtnBuffer kb' ! j) = config (BtnBuffer kb ! j)"
    using m l by (metis nth_map)
  with f m l OpMainFunction show ?thesis by simp
qed

lemma keyboard_run_frame:
  "keyboard_run kb ops = Inr kb' \<Longrightarrow>
   Buttons kb' = Buttons kb \<and> Sample kb' = Sample kb
   \<and> length (BtnBuffer kb') = length (BtnBuffer kb)
   \<and> unat (KeyboardType.Counter kb) \<le> unat (KeyboardType.Counter kb')
   \<and> (\<forall>j. j < unat (KeyboardType.Counter kb) \<and> j < length (BtnBuffer kb) \<longrightarrow>
         config (BtnBuffer kb' ! j) = config (BtnBuffer kb ! j))
   \<and> (\<not> list_ex is_register ops \<longrightarrow>
         KeyboardType.Counter kb' = KeyboardType.Counter kb
         \<and> map config (BtnBuffer kb') = map config (BtnBuffer kb))"
proof (induction ops arbitrary: kb)
  case Nil
  then show ?case by simp
next
  case (Cons x xs)
  from Cons.prems obtain k1 where s: "keyboard_step kb x = Inr k1"
    and r: "keyboard_run k1 xs = Inr kb'"
    by (auto split: sum.splits)
  note a = keyboard_step_frame [OF s]
  note b = Cons.IH [OF r]
  have c: "\<forall>j. j < unat (KeyboardType.Counter kb) \<and> j < length (BtnBuffer kb) \<longrightarrow>
             config (BtnBuffer kb' ! j) = config (BtnBuffer kb ! j)"
  proof (intro allI impI)
    fix j
    assume j: "j < unat (KeyboardType.Counter kb) \<and> j < length (BtnBuffer kb)"
    then have "j < unat (KeyboardType.Counter k1) \<and> j < length (BtnBuffer k1)"
      using a by simp
    then have "config (BtnBuffer kb' ! j) = config (BtnBuffer k1 ! j)" using b by blast
    moreover have "config (BtnBuffer k1 ! j) = config (BtnBuffer kb ! j)" using a j by blast
    ultimately show "config (BtnBuffer kb' ! j) = config (BtnBuffer kb ! j)" by simp
  qed
  have d: "\<not> list_ex is_register (x # xs) \<longrightarrow>
             KeyboardType.Counter kb' = KeyboardType.Counter kb
             \<and> map config (BtnBuffer kb') = map config (BtnBuffer kb)"
    using a b by simp
  from a b c d show ?case by simp
qed

lemma Sample_Button_press_below_threshold:
  assumes "smState b = ST_PRESS" and "rd (Port b) (Pin b) \<noteq> ActiveLevel b"
    and "\<not> N \<le> ButtonType.Counter b + 1"
  shows "Sample_Button rd b N = b\<lparr>ButtonType.Counter := ButtonType.Counter b + 1, smState := ST_IDLE\<rparr>"
  using assms by (simp add: Sample_Button_def Let_def)

lemma Sample_Button_press_at_threshold:
  assumes "smState b = ST_PRESS" and "N \<le> ButtonType.Counter b + 1"
  shows "Sample_Button rd b N =
           b\<lparr>ButtonType.Counter := ButtonType.Counter b + 1, Event := BTN_PRESSED,
             Status := BTN_ACTIVE, smState := ST_HOLD\<rparr>"
  using assms by (simp add: Sample_Button_def Let_def)

text \<open>
  C1. Debounce by consecutive confirmation: a tick in state \<open>ST_PRESS\<close> whose sample
  contradicts the active level is claimed to drop the attempt without a pressed event
  and without setting the status active. The code does not do so on the tick at which
  the counter reaches the threshold: with threshold 2, the button registered on fresh
  storage and the levels active, active, the button is in \<open>ST_PRESS\<close> with counter 1,
  inactive, no event; a third tick reading the inactive level sets \<open>ST_IDLE\<close> and then,
  the threshold test not being in an \<^verbatim>\<open>else\<close> branch, emits the pressed event, sets
  the status active and enters \<open>ST_HOLD\<close>.
\<close>

theorem press_glitch_at_threshold_confirms:
  "one_button 2 = Inr (1, one_button_in 2 ST_IDLE 0 BTN_INACTIVE BTN_IDLE)
   \<and> Buttons_ticks (one_button_in 2 ST_IDLE 0 BTN_INACTIVE BTN_IDLE) [level 1, level 1]
       = Inr (one_button_in 2 ST_PRESS 1 BTN_INACTIVE BTN_IDLE)
   \<and> Buttons_MainFunction (level 0) (one_button_in 2 ST_PRESS 1 BTN_INACTIVE BTN_IDLE)
       = Inr (one_button_in 2 ST_HOLD 2 BTN_ACTIVE BTN_PRESSED)"
  by (simp add: one_button_eq button_eval)

text \<open>
  C4. \<open>Buttons_GetStatus\<close> is claimed to return the confirmed status of every registered
  button \<open>1 \<le> i \<le> Counter\<close>. The guard of the code is \<open>Button < Counter\<close>, where
  \<open>Buttons_GetEvent\<close> has \<open>Button \<le> Counter\<close>: for the last registered button the call
  returns inactive whatever its status. Here the only button has been confirmed
  pressed (threshold 1, two active ticks), its stored status is active, and
  \<open>Buttons_GetStatus\<close> with index 1 returns inactive.
\<close>

theorem last_button_status_not_reported:
  "Buttons_ticks (one_button_in 1 ST_IDLE 0 BTN_INACTIVE BTN_IDLE) [level 1, level 1]
     = Inr (one_button_in 1 ST_HOLD 1 BTN_ACTIVE BTN_PRESSED)
   \<and> Status (BtnBuffer (one_button_in 1 ST_HOLD 1 BTN_ACTIVE BTN_PRESSED) ! 0) = BTN_ACTIVE
   \<and> Buttons_GetStatus (one_button_in 1 ST_HOLD 1 BTN_ACTIVE BTN_PRESSED) 1 = Inr BTN_INACTIVE"
  by (simp add: button_eval Buttons_GetStatus_def)

text \<open>
  C5. \<open>Buttons_GetEvent\<close> is claimed to return "none" and to modify nothing for the
  out-of-range index 0. The guard \<open>Button \<le> Counter\<close> lets index 0 through for every
  keyboard, and the entry \<open>BtnBuffer[Button - 1]\<close> read and then written is the one
  before the start of the storage.
\<close>

theorem GetEvent_index_zero_out_of_bounds:
  "Buttons_GetEvent kb 0 = Inl OutOfBounds"
  by (simp add: Buttons_GetEvent_def btn_at_def)

text \<open>
  C6. Scenario with threshold 3 and the levels active, active, inactive, active, active,
  active, starting in \<open>ST_IDLE\<close>. As claimed the attempt is dropped once, at sample 3.
  The claim that the press is confirmed right after sample 6 does not hold: the tick
  that detects the edge starts the counter at 0 and the threshold counts the ticks
  after it, so after sample 6 the button is in \<open>ST_PRESS\<close> with counter 2, inactive and
  without event.
\<close>

theorem scenario_not_confirmed_at_sample_six:
  "Buttons_ticks (one_button_in 3 ST_IDLE 0 BTN_INACTIVE BTN_IDLE)
     [level 1, level 1, level 0, level 1, level 1, level 1]
     = Inr (one_button_in 3 ST_PRESS 2 BTN_INACTIVE BTN_IDLE)
   \<and> Event (BtnBuffer (one_button_in 3 ST_PRESS 2 BTN_INACTIVE BTN_IDLE) ! 0) \<noteq> BTN_PRESSED
   \<and> Status (BtnBuffer (one_button_in 3 ST_PRESS 2 BTN_INACTIVE BTN_IDLE) ! 0) \<noteq> BTN_ACTIVE"
  by (simp add: button_eval)

text \<open>
  C6, as amended: over the six samples the button goes back to \<open>ST_IDLE\<close> exactly once,
  at sample 3, and stays inactive and without event after each of them; after sample 6
  it is in \<open>ST_PRESS\<close> with counter 2; the pressed event and the active status appear at
  a seventh tick that reads the active level.
\<close>

theorem scenario_confirmed_at_seventh_tick:
  "Buttons_trace (one_button_in 3 ST_IDLE 0 BTN_INACTIVE BTN_IDLE)
     [level 1, level 1, level 0, level 1, level 1, level 1, level 1]
     = Inr [one_button_in 3 ST_PRESS 0 BTN_INACTIVE BTN_IDLE,
            one_button_in 3 ST_PRESS 1 BTN_INACTIVE BTN_IDLE,
            one_button_in 3 ST_IDLE 2 BTN_INACTIVE BTN_IDLE,
            one_button_in 3 ST_PRESS 0 BTN_INACTIVE BTN_IDLE,
            one_button_in 3 ST_PRESS 1 BTN_INACTIVE BTN_IDLE,
            one_button_in 3 ST_PRESS 2 BTN_INACTIVE BTN_IDLE,
            one_button_in 3 ST_HOLD 3 BTN_ACTIVE BTN_PRESSED]"
  by (simp add: button_eval)

lemma confirms_edge_threshold:
  "confirms_edge rd b N =
     ((smState b = ST_PRESS \<or> smState b = ST_RELEASE) \<and> N \<le> ButtonType.Counter b + 1)"
  by (auto simp: confirms_edge_def Sample_Button_def Let_def)

lemma Sample_Button_event_kept:
  "\<not> confirms_edge rd b N \<Longrightarrow> Event (Sample_Button rd b N) = Event b"
  by (auto simp: confirms_edge_threshold Sample_Button_def Let_def)

lemma Sample_Button_event_set:
  "confirms_edge rd b N \<Longrightarrow>
   Event (Sample_Button rd b N) = (if smState b = ST_PRESS then BTN_PRESSED else BTN_RELEASED)"
  by (auto simp: confirms_edge_threshold Sample_Button_def Let_def)

lemma MainFunction_loop_entries:
  "unat (KeyboardType.Counter kb) \<le> length (BtnBuffer kb) \<Longrightarrow>
   \<exists>kb'. MainFunction_loop rd kb btn = Inr kb'
     \<and> KeyboardType.Counter kb' = KeyboardType.Counter kb \<and> Sample kb' = Sample kb
     \<and> length (BtnBuffer kb') = length (BtnBuffer kb)
     \<and> (\<forall>j. j < unat btn \<longrightarrow> BtnBuffer kb' ! j = BtnBuffer kb ! j)
     \<and> (\<forall>j. unat btn \<le> j \<and> j < unat (KeyboardType.Counter kb) \<longrightarrow>
            BtnBuffer kb' ! j = Sample_Button rd (BtnBuffer kb ! j) (Sample kb))"
proof (induction rd kb btn rule: MainFunction_loop.induct)
  case (1 rd kb btn)
  show ?case
  proof (cases "btn < KeyboardType.Counter kb")
    case False
    then have "\<not> unat btn < unat (KeyboardType.Counter kb)" by (simp add: word_less_nat_alt)
    then show ?thesis using False by (auto simp: MainFunction_loop.simps [of rd kb btn])
  next
    case True
    let ?b = "BtnBuffer kb ! unat btn"
    let ?k1 = "kb\<lparr>BtnBuffer := (BtnBuffer kb)[unat btn := Sample_Button rd ?b (Sample kb)]\<rparr>"
    have lt: "unat btn < unat (KeyboardType.Counter kb)"
      using True by (simp add: word_less_nat_alt)
    then have i: "unat btn < length (BtnBuffer kb)" using "1.prems" by simp
    then have at: "btn_at (BtnBuffer kb) (uint btn) = Inr ?b" by (rule btn_at_unat)
    have s: "unat (btn + 1) = Suc (unat btn)" using True by (rule word_succ_unat)
    have p: "unat (KeyboardType.Counter ?k1) \<le> length (BtnBuffer ?k1)" using "1.prems" by simp
    from "1.IH" [OF True at p] obtain kb' where
      r: "MainFunction_loop rd ?k1 (btn + 1) = Inr kb'"
      and c: "KeyboardType.Counter kb' = KeyboardType.Counter ?k1" "Sample kb' = Sample ?k1"
      and l: "length (BtnBuffer kb') = length (BtnBuffer ?k1)"
      and lo: "\<forall>j. j < unat (btn + 1) \<longrightarrow> BtnBuffer kb' ! j = BtnBuffer ?k1 ! j"
      and hi: "\<forall>j. unat (btn + 1) \<le> j \<and> j < unat (KeyboardType.Counter ?k1) \<longrightarrow>
            BtnBuffer kb' ! j = Sample_Button rd (BtnBuffer ?k1 ! j) (Sample ?k1)"
      by blast
    have run: "MainFunction_loop rd kb btn = Inr kb'"
      using True at r by (simp add: MainFunction_loop.simps [of rd kb btn])
    have lo': "\<forall>j. j < unat btn \<longrightarrow> BtnBuffer kb' ! j = BtnBuffer kb ! j"
      using lo s by simp
    have hi': "\<forall>j. unat btn \<le> j \<and> j < unat (KeyboardType.Counter kb) \<longrightarrow>
            BtnBuffer kb' ! j = Sample_Button rd (BtnBuffer kb ! j) (Sample kb)"
    proof (intro allI impI)
      fix j
      assume j: "unat btn \<le> j \<and> j < unat (KeyboardType.Counter kb)"
      show "BtnBuffer kb' ! j = Sample_Button rd (BtnBuffer kb ! j) (Sample kb)"
      proof (cases "j = unat btn")
        case True
        then have "BtnBuffer kb' ! j = BtnBuffer ?k1 ! j" using lo s by simp
        then show ?thesis using True i by simp
      next
        case False
        then have "unat (btn + 1) \<le> j \<and> j < unat (KeyboardType.Counter ?k1)"
          using j s by simp
        then have "BtnBuffer kb' ! j = Sample_Button rd (BtnBuffer ?k1 ! j) (Sample ?k1)"
          using hi by blast
        then show ?thesis using False by simp
      qed
    qed
    from run c l lo' hi' show ?thesis by simp
  qed
qed

lemma Buttons_MainFunction_entries:
  assumes "unat (KeyboardType.Counter kb) \<le> length (BtnBuffer kb)"
  shows "\<exists>kb'. Buttons_MainFunction rd kb = Inr kb'
     \<and> KeyboardType.Counter kb' = KeyboardType.Counter kb \<and> Sample kb' = Sample kb
     \<and> length (BtnBuffer kb') = length (BtnBuffer kb)
     \<and> (\<forall>j. j < unat (KeyboardType.Counter kb) \<longrightarrow>
            BtnBuffer kb' ! j = Sample_Button rd (BtnBuffer kb ! j) (Sample kb))"
  using MainFunction_loop_entries [OF assms, of rd 0]
  by (simp add: Buttons_MainFunction_def)

lemma quiet_ticks_event_none:
  assumes "unat (KeyboardType.Counter kb) \<le> length (BtnBuffer kb)"
    and "j < unat (KeyboardType.Counter kb)"
    and "Event (BtnBuffer kb ! j) = BTN_IDLE"
    and "quiet_ticks j kb rds"
  shows "\<exists>kb'. Buttons_ticks kb rds = Inr kb'
           \<and> KeyboardType.Counter kb' = KeyboardType.Counter kb
           \<and> length (BtnBuffer kb') = length (BtnBuffer kb)
           \<and> Event (BtnBuffer kb' ! j) = BTN_IDLE"
  using assms
proof (induction rds arbitrary: kb)
  case Nil
  then show ?case by simp
next
  case (Cons r rds)
  from Buttons_MainFunction_entries [OF Cons.prems(1), of r] obtain k1 where
    m: "Buttons_MainFunction r kb = Inr k1"
    and c: "KeyboardType.Counter k1 = KeyboardType.Counter kb" "Sample k1 = Sample kb"
    and l: "length (BtnBuffer k1) = length (BtnBuffer kb)"
    and e: "\<forall>j. j < unat (KeyboardType.Counter kb) \<longrightarrow>
            BtnBuffer k1 ! j = Sample_Button r (BtnBuffer kb ! j) (Sample kb)"
    by blast
  have nq: "\<not> confirms_edge r (BtnBuffer kb ! j) (Sample kb)"
    and q: "quiet_ticks j k1 rds"
    using Cons.prems(4) m by simp_all
  have "BtnBuffer k1 ! j = Sample_Button r (BtnBuffer kb ! j) (Sample kb)"
    using e Cons.prems(2) by blast
  then have ev: "Event (BtnBuffer k1 ! j) = BTN_IDLE"
    using Sample_Button_event_kept [OF nq] Cons.prems(3) by simp
  have p1: "unat (KeyboardType.Counter k1) \<le> length (BtnBuffer k1)"
    using c l Cons.prems(1) by simp
  have p2: "j < unat (KeyboardType.Counter k1)" using c Cons.prems(2) by simp
  from Cons.IH [OF p1 p2 ev q] obtain kb' where
    "Buttons_ticks k1 rds = Inr kb'"
    "KeyboardType.Counter kb' = KeyboardType.Counter k1"
    "length (BtnBuffer kb') = length (BtnBuffer k1)"
    "Event (BtnBuffer kb' ! j) = BTN_IDLE"
    by blast
  then show ?case using m c l by simp
qed

lemma Buttons_GetEvent_registered:
  assumes "1 \<le> i" and "i \<le> KeyboardType.Counter kb"
    and "unat (KeyboardType.Counter kb) \<le> length (BtnBuffer kb)"
  shows "Buttons_GetEvent kb i =
           Inr (Event (BtnBuffer kb ! (unat i - 1)),
                kb\<lparr>BtnBuffer := (BtnBuffer kb)[unat i - 1 :=
                       (BtnBuffer kb ! (unat i - 1))\<lparr>Event := BTN_IDLE\<rparr>]\<rparr>)"
proof -
  have "unat i \<le> unat (KeyboardType.Counter kb)"
    using assms(2) by (simp add: word_le_nat_alt)
  then have l: "unat i \<le> length (BtnBuffer kb)" using assms(3) by simp
  note p = btn_at_pred [OF assms(1) l]
  show ?thesis using assms(2) p by (simp add: Buttons_GetEvent_def)
qed

lemma Buttons_GetEvent_none_pending:
  assumes "1 \<le> i" and "i \<le> KeyboardType.Counter kb"
    and "unat (KeyboardType.Counter kb) \<le> length (BtnBuffer kb)"
    and "Event (BtnBuffer kb ! (unat i - 1)) = BTN_IDLE"
  shows "Buttons_GetEvent kb i = Inr (BTN_IDLE, kb)"
proof -
  have "(BtnBuffer kb ! (unat i - 1))\<lparr>Event := BTN_IDLE\<rparr> = BtnBuffer kb ! (unat i - 1)"
    using assms(4) by simp
  then show ?thesis
    using Buttons_GetEvent_registered [OF assms(1,2,3)] assms(4) by simp
qed

text \<open>
  C7. One-shot delivery: for a registered button \<open>1 \<le> i \<le> Counter\<close> (the storage holding
  the registered entries), \<open>Buttons_GetEvent\<close> returns the stored event and clears it; the
  same call repeated at once returns "none" and changes nothing, and so does the call
  repeated after any number of \<open>Buttons_MainFunction\<close> ticks, whatever the pins read, as
  long as none of these ticks confirms a new edge on the button.
\<close>

theorem Buttons_GetEvent_one_shot:
  assumes "1 \<le> i" and "i \<le> KeyboardType.Counter kb"
    and "unat (KeyboardType.Counter kb) \<le> length (BtnBuffer kb)"
  shows "\<exists>kb1. Buttons_GetEvent kb i = Inr (Event (BtnBuffer kb ! (unat i - 1)), kb1)
           \<and> Buttons_GetEvent kb1 i = Inr (BTN_IDLE, kb1)
           \<and> (\<forall>rds. quiet_ticks (unat i - 1) kb1 rds \<longrightarrow>
                 (\<exists>kb2. Buttons_ticks kb1 rds = Inr kb2
                    \<and> Buttons_GetEvent kb2 i = Inr (BTN_IDLE, kb2)))"
proof -
  let ?j = "unat i - 1"
  let ?kb1 = "kb\<lparr>BtnBuffer := (BtnBuffer kb)[?j := (BtnBuffer kb ! ?j)\<lparr>Event := BTN_IDLE\<rparr>]\<rparr>"
  have ui: "1 \<le> unat i" using assms(1) by (simp add: word_le_nat_alt)
  have uc: "unat i \<le> unat (KeyboardType.Counter kb)"
    using assms(2) by (simp add: word_le_nat_alt)
  have jc: "?j < unat (KeyboardType.Counter kb)" using ui uc by simp
  then have jl: "?j < length (BtnBuffer kb)" using assms(3) by simp
  have a: "Buttons_GetEvent kb i = Inr (Event (BtnBuffer kb ! ?j), ?kb1)"
    using assms by (rule Buttons_GetEvent_registered)
  have c1: "i \<le> KeyboardType.Counter ?kb1" using assms(2) by simp
  have l1: "unat (KeyboardType.Counter ?kb1) \<le> length (BtnBuffer ?kb1)" using assms(3) by simp
  have j1: "?j < unat (KeyboardType.Counter ?kb1)" using jc by simp
  have e1: "Event (BtnBuffer ?kb1 ! ?j) = BTN_IDLE" using jl by simp
  have b: "Buttons_GetEvent ?kb1 i = Inr (BTN_IDLE, ?kb1)"
    using assms(1) c1 l1 e1 by (rule Buttons_GetEvent_none_pending)
  have c: "\<forall>rds. quiet_ticks ?j ?kb1 rds \<longrightarrow>
             (\<exists>kb2. Buttons_ticks ?kb1 rds = Inr kb2
                \<and> Buttons_GetEvent kb2 i = Inr (BTN_IDLE, kb2))"
  proof (intro allI impI)
    fix rds
    assume q: "quiet_ticks ?j ?kb1 rds"
    from quiet_ticks_event_none [OF l1 j1 e1 q] obtain kb2 where
      t: "Buttons_ticks ?kb1 rds = Inr kb2"
      and c2: "KeyboardType.Counter kb2 = KeyboardType.Counter ?kb1"
      and l2: "length (BtnBuffer kb2) = length (BtnBuffer ?kb1)"
      and e2: "Event (BtnBuffer kb2 ! ?j) = BTN_IDLE"
      by blast
    have p2: "i \<le> KeyboardType.Counter kb2" using c2 c1 by simp
    have p3: "unat (KeyboardType.Counter kb2) \<le> length (BtnBuffer kb2)" using c2 l2 l1 by simp
    have "Buttons_GetEvent kb2 i = Inr (BTN_IDLE, kb2)"
      using assms(1) p2 p3 e2 by (rule Buttons_GetEvent_none_pending)
    with t show "\<exists>kb2. Buttons_ticks ?kb1 rds = Inr kb2
                \<and> Buttons_GetEvent kb2 i = Inr (BTN_IDLE, kb2)" by blast
  qed
  from a b c show ?thesis by blast
qed

theorem Buttons_GetEvent_one_shot_witness:
  "(1 :: u8) \<le> 1
   \<and> 1 \<le> KeyboardType.Counter (one_button_in 3 ST_HOLD 3 BTN_ACTIVE BTN_PRESSED)
   \<and> (\<exists>kb1. Buttons_GetEvent (one_button_in 3 ST_HOLD 3 BTN_ACTIVE BTN_PRESSED) 1
                = Inr (BTN_PRESSED, kb1)
            \<and> Buttons_GetEvent kb1 1 = Inr (BTN_IDLE, kb1)
            \<and> quiet_ticks 0 kb1 [level 1, level 0, level 1, level 1]
            \<and> (\<exists>kb2. Buttons_ticks kb1 [level 1, level 0, level 1, level 1] = Inr kb2
                  \<and> Buttons_GetEvent kb2 1 = Inr (BTN_IDLE, kb2)))"
proof -
  let ?K = "one_button_in 3 ST_HOLD 3 BTN_ACTIVE BTN_PRESSED"
  let ?K1 = "one_button_in 3 ST_HOLD 3 BTN_ACTIVE BTN_IDLE"
  let ?rds = "[level 1, level 0, level 1, level 1]"
  have h1: "(1 :: u8) \<le> 1" by simp
  have h2: "1 \<le> KeyboardType.Counter ?K" by (simp add: one_button_in_def)
  have h3: "unat (KeyboardType.Counter ?K) \<le> length (BtnBuffer ?K)"
    by (simp add: one_button_in_def)
  have u: "unat (1 :: u8) - 1 = 0" by simp
  have e: "Event (BtnBuffer ?K ! 0) = BTN_PRESSED" by (simp add: one_button_in_def)
  from Buttons_GetEvent_one_shot [OF h1 h2 h3] obtain kb1 where
    a: "Buttons_GetEvent ?K 1 = Inr (BTN_PRESSED, kb1)"
    and b: "Buttons_GetEvent kb1 1 = Inr (BTN_IDLE, kb1)"
    and c: "\<forall>rds. quiet_ticks 0 kb1 rds \<longrightarrow>
              (\<exists>kb2. Buttons_ticks kb1 rds = Inr kb2
                 \<and> Buttons_GetEvent kb2 1 = Inr (BTN_IDLE, kb2))"
    unfolding u e by blast
  have g: "Buttons_GetEvent ?K 1 = Inr (BTN_PRESSED, ?K1)"
    by (simp add: one_button_in_def Buttons_GetEvent_def btn_at_def)
  from a g have k: "kb1 = ?K1" by simp
  have "quiet_ticks 0 ?K1 ?rds"
    by (simp add: button_eval confirms_edge_def)
  then have q: "quiet_ticks 0 kb1 ?rds" using k by simp
  from c q have d: "\<exists>kb2. Buttons_ticks kb1 ?rds = Inr kb2
                 \<and> Buttons_GetEvent kb2 1 = Inr (BTN_IDLE, kb2)"
    by blast
  from h1 h2 a b q d show ?thesis by blast
qed

text \<open>
  C8. Registration on storage that holds the declared capacity: below the capacity
  \<open>Buttons_Register\<close> fills the entry at the registered count with the pin, port and
  active level given, status inactive, event none and state \<open>ST_IDLE\<close>, leaves the
  entries registered before untouched, increments the count and returns it, the
  1-based index of the new button; at the capacity it returns 0 and the keyboard is
  unchanged; a count within the capacity stays within the capacity.
\<close>

theorem Buttons_Register_capacity:
  assumes "unat (Buttons kb) \<le> length (BtnBuffer kb)"
  shows "(KeyboardType.Counter kb < Buttons kb \<longrightarrow>
           (\<exists>kb'. Buttons_Register kb p prt lvl = Inr (KeyboardType.Counter kb + 1, kb')
              \<and> unat (KeyboardType.Counter kb + 1) = unat (KeyboardType.Counter kb) + 1
              \<and> KeyboardType.Counter kb' = KeyboardType.Counter kb + 1
              \<and> KeyboardType.Counter kb' \<le> Buttons kb'
              \<and> Buttons kb' = Buttons kb \<and> Sample kb' = Sample kb
              \<and> length (BtnBuffer kb') = length (BtnBuffer kb)
              \<and> Pin (BtnBuffer kb' ! unat (KeyboardType.Counter kb)) = p
              \<and> Port (BtnBuffer kb' ! unat (KeyboardType.Counter kb)) = prt
              \<and> ActiveLevel (BtnBuffer kb' ! unat (KeyboardType.Counter kb)) = lvl
              \<and> Status (BtnBuffer kb' ! unat (KeyboardType.Counter kb)) = BTN_INACTIVE
              \<and> Event (BtnBuffer kb' ! unat (KeyboardType.Counter kb)) = BTN_IDLE
              \<and> smState (BtnBuffer kb' ! unat (KeyboardType.Counter kb)) = ST_IDLE
              \<and> (\<forall>j. j < unat (KeyboardType.Counter kb) \<longrightarrow>
                    BtnBuffer kb' ! j = BtnBuffer kb ! j)))
         \<and> (KeyboardType.Counter kb = Buttons kb \<longrightarrow>
              Buttons_Register kb p prt lvl = Inr (0, kb))
         \<and> (KeyboardType.Counter kb \<le> Buttons kb \<longrightarrow>
              (\<forall>r kb'. Buttons_Register kb p prt lvl = Inr (r, kb') \<longrightarrow>
                 KeyboardType.Counter kb' \<le> Buttons kb'))"
proof -
  let ?c = "KeyboardType.Counter kb"
  have room: "?c < Buttons kb \<longrightarrow>
           (\<exists>kb'. Buttons_Register kb p prt lvl = Inr (?c + 1, kb')
              \<and> unat (?c + 1) = unat ?c + 1
              \<and> KeyboardType.Counter kb' = ?c + 1
              \<and> KeyboardType.Counter kb' \<le> Buttons kb'
              \<and> Buttons kb' = Buttons kb \<and> Sample kb' = Sample kb
              \<and> length (BtnBuffer kb') = length (BtnBuffer kb)
              \<and> Pin (BtnBuffer kb' ! unat ?c) = p
              \<and> Port (BtnBuffer kb' ! unat ?c) = prt
              \<and> ActiveLevel (BtnBuffer kb' ! unat ?c) = lvl
              \<and> Status (BtnBuffer kb' ! unat ?c) = BTN_INACTIVE
              \<and> Event (BtnBuffer kb' ! unat ?c) = BTN_IDLE
              \<and> smState (BtnBuffer kb' ! unat ?c) = ST_IDLE
              \<and> (\<forall>j. j < unat ?c \<longrightarrow> BtnBuffer kb' ! j = BtnBuffer kb ! j))"
  proof
    assume lt: "?c < Buttons kb"
    have s: "unat (?c + 1) = unat ?c + 1" using word_succ_unat [OF lt] by simp
    have "unat ?c < unat (Buttons kb)" using lt by (simp add: word_less_nat_alt)
    then have le: "?c + 1 \<le> Buttons kb" using s by (simp add: word_le_nat_alt)
    have i: "unat ?c < length (BtnBuffer kb)"
      using \<open>unat ?c < unat (Buttons kb)\<close> assms by simp
    show "\<exists>kb'. Buttons_Register kb p prt lvl = Inr (?c + 1, kb')
              \<and> unat (?c + 1) = unat ?c + 1
              \<and> KeyboardType.Counter kb' = ?c + 1
              \<and> KeyboardType.Counter kb' \<le> Buttons kb'
              \<and> Buttons kb' = Buttons kb \<and> Sample kb' = Sample kb
              \<and> length (BtnBuffer kb') = length (BtnBuffer kb)
              \<and> Pin (BtnBuffer kb' ! unat ?c) = p
              \<and> Port (BtnBuffer kb' ! unat ?c) = prt
              \<and> ActiveLevel (BtnBuffer kb' ! unat ?c) = lvl
              \<and> Status (BtnBuffer kb' ! unat ?c) = BTN_INACTIVE
              \<and> Event (BtnBuffer kb' ! unat ?c) = BTN_IDLE
              \<and> smState (BtnBuffer kb' ! unat ?c) = ST_IDLE
              \<and> (\<forall>j. j < unat ?c \<longrightarrow> BtnBuffer kb' ! j = BtnBuffer kb ! j)"
      using Buttons_Register_room [OF lt assms, of p prt lvl] s le i by simp
  qed
  have full: "?c = Buttons kb \<longrightarrow> Buttons_Register kb p prt lvl = Inr (0, kb)"
    by (simp add: Buttons_Register_def)
  have bound: "?c \<le> Buttons kb \<longrightarrow>
              (\<forall>r kb'. Buttons_Register kb p prt lvl = Inr (r, kb') \<longrightarrow>
                 KeyboardType.Counter kb' \<le> Buttons kb')"
  proof (cases "?c < Buttons kb")
    case True
    with room show ?thesis by auto
  next
    case False
    then show ?thesis by (auto simp: Buttons_Register_def)
  qed
  from room full bound show ?thesis by blast
qed

theorem Buttons_Register_capacity_witness:
  "unat (Buttons (Buttons_Init blank_keyboard 1 3 [blank_button]))
     \<le> length (BtnBuffer (Buttons_Init blank_keyboard 1 3 [blank_button]))
   \<and> (\<exists>kb'. Buttons_Register (Buttons_Init blank_keyboard 1 3 [blank_button]) 5 2 1
                = Inr (1, kb')
            \<and> KeyboardType.Counter kb' = 1
            \<and> Pin (BtnBuffer kb' ! 0) = 5 \<and> Port (BtnBuffer kb' ! 0) = 2
            \<and> ActiveLevel (BtnBuffer kb' ! 0) = 1
            \<and> Status (BtnBuffer kb' ! 0) = BTN_INACTIVE
            \<and> Event (BtnBuffer kb' ! 0) = BTN_IDLE
            \<and> smState (BtnBuffer kb' ! 0) = ST_IDLE)
   \<and> Buttons_Register (one_button_in 3 ST_IDLE 0 BTN_INACTIVE BTN_IDLE) 7 1 0
       = Inr (0, one_button_in 3 ST_IDLE 0 BTN_INACTIVE BTN_IDLE)"
proof -
  let ?K0 = "Buttons_Init blank_keyboard 1 3 [blank_button]"
  let ?K1 = "one_button_in 3 ST_IDLE 0 BTN_INACTIVE BTN_IDLE"
  have h0: "unat (Buttons ?K0) \<le> length (BtnBuffer ?K0)"
    by (simp add: Buttons_Init_def)
  have c0: "KeyboardType.Counter ?K0 = 0" and b0: "Buttons ?K0 = 1"
    by (simp_all add: Buttons_Init_def)
  have h1: "unat (Buttons ?K1) \<le> length (BtnBuffer ?K1)"
    by (simp add: one_button_in_def)
  have c1: "KeyboardType.Counter ?K1 = Buttons ?K1" by (simp add: one_button_in_def)
  from Buttons_Register_capacity [OF h0, of 5 2 1]
  have a: "\<exists>kb'. Buttons_Register ?K0 5 2 1 = Inr (1, kb')
            \<and> KeyboardType.Counter kb' = 1
            \<and> Pin (BtnBuffer kb' ! 0) = 5 \<and> Port (BtnBuffer kb' ! 0) = 2
            \<and> ActiveLevel (BtnBuffer kb' ! 0) = 1
            \<and> Status (BtnBuffer kb' ! 0) = BTN_INACTIVE
            \<and> Event (BtnBuffer kb' ! 0) = BTN_IDLE
            \<and> smState (BtnBuffer kb' ! 0) = ST_IDLE"
    by (simp add: c0 b0, blast)
  from Buttons_Register_capacity [OF h1, of 7 1 0] c1
  have b: "Buttons_Register ?K1 7 1 0 = Inr (0, ?K1)" by blast
  from h0 a b show ?thesis by blast
qed

text \<open>
  C10. Configuration is immutable: over any sequence of \<open>Buttons_Register\<close>,
  \<open>Buttons_GetStatus\<close>, \<open>Buttons_GetEvent\<close> and \<open>Buttons_MainFunction\<close> calls the declared
  capacity and the sample threshold keep their values and every button registered
  before keeps its pin, port and active level (registration writes them once, into
  the entry it appends); when no call of the sequence is a registration, the
  registered count and the pin, port and active level of every entry of the storage
  are unchanged.
\<close>

theorem button_configuration_frame:
  assumes "keyboard_run kb ops = Inr kb'"
  shows "Buttons kb' = Buttons kb \<and> Sample kb' = Sample kb
         \<and> (\<forall>j. j < unat (KeyboardType.Counter kb) \<and> j < length (BtnBuffer kb) \<longrightarrow>
               Pin (BtnBuffer kb' ! j) = Pin (BtnBuffer kb ! j)
               \<and> Port (BtnBuffer kb' ! j) = Port (BtnBuffer kb ! j)
               \<and> ActiveLevel (BtnBuffer kb' ! j) = ActiveLevel (BtnBuffer kb ! j))
         \<and> (\<not> list_ex is_register ops \<longrightarrow>
               KeyboardType.Counter kb' = KeyboardType.Counter kb
               \<and> map config (BtnBuffer kb') = map config (BtnBuffer kb))"
  using keyboard_run_frame [OF assms] by (simp add: config_def)

theorem button_configuration_frame_witness:
  "keyboard_run (one_button_in 1 ST_IDLE 0 BTN_INACTIVE BTN_IDLE)
     [OpMainFunction (level 1), OpMainFunction (level 1), OpGetStatus 1, OpGetEvent 1]
     = Inr (one_button_in 1 ST_HOLD 1 BTN_ACTIVE BTN_IDLE)
   \<and> KeyboardType.Counter (one_button_in 1 ST_HOLD 1 BTN_ACTIVE BTN_IDLE) = 1
   \<and> map config (BtnBuffer (one_button_in 1 ST_HOLD 1 BTN_ACTIVE BTN_IDLE)) = [(5, 2, 1)]"
proof -
  let ?K = "one_button_in 1 ST_IDLE 0 BTN_INACTIVE BTN_IDLE"
  let ?K' = "one_button_in 1 ST_HOLD 1 BTN_ACTIVE BTN_IDLE"
  let ?ops = "[OpMainFunction (level 1), OpMainFunction (level 1), OpGetStatus 1, OpGetEvent 1]"
  have r: "keyboard_run ?K ?ops = Inr ?K'"
    by (simp add: button_eval Buttons_GetStatus_def Buttons_GetEvent_def)
  have n: "\<not> list_ex is_register ?ops" by simp
  have k: "KeyboardType.Counter ?K = 1" and m: "map config (BtnBuffer ?K) = [(5, 2, 1)]"
    by (simp_all add: one_button_in_def config_def)
  from button_configuration_frame [OF r] n
  have "KeyboardType.Counter ?K' = KeyboardType.Counter ?K
        \<and> map config (BtnBuffer ?K') = map config (BtnBuffer ?K)"
    by blast
  with r k m show ?thesis by simp
qed

end
